theory Spec2Isabelle
  imports Main
begin

section \<open>Strings, errors and the interpreter's character tables\<close>

text \<open>
  A Python \<open>str\<close> is a sequence of Unicode code points. A code point is modelled as a
  natural number and a string as a list of them; \<open>len\<close> is \<open>length\<close>.
  Python integers are unbounded and modelled as \<open>int\<close>.
\<close>

type_synonym cp = nat
type_synonym ustr = "nat list"

text \<open>
  The exceptions that can leave the functions of \<open>core.py\<close>: \<open>int()\<close> raises
  \<open>ValueError\<close>, \<open>calendar.monthrange\<close> raises \<open>IllegalMonthError\<close> (carrying
  the month), a dictionary subscript raises \<open>KeyError\<close>.
\<close>

datatype error = ValueError | IllegalMonthError int | KeyError

text \<open>
  The characters with the Unicode property \<open>Decimal\<close> (what \<open>str.isdecimal\<close>, the
  regular expression class \<open>\d\<close> on \<open>str\<close> patterns and \<open>int()\<close> accept) come in
  runs of ten consecutive code points, the digits 0 to 9 of one script.
  \<open>decimal_zeros\<close> lists the zero of every run (Unicode 14.0.0, the database of
  CPython 3.11); \<open>0x30\<close> is ASCII \<open>0\<close> and \<open>0xFF10\<close> the full-width zero.
\<close>

definition decimal_zeros :: "cp list" where
  "decimal_zeros =
    [0x30, 0x660, 0x6F0, 0x7C0, 0x966, 0x9E6, 0xA66, 0xAE6, 0xB66, 0xBE6, 0xC66, 0xCE6,
     0xD66, 0xDE6, 0xE50, 0xED0, 0xF20, 0x1040, 0x1090, 0x17E0, 0x1810, 0x1946, 0x19D0,
     0x1A80, 0x1A90, 0x1B50, 0x1BB0, 0x1C40, 0x1C50, 0xA620, 0xA8D0, 0xA900, 0xA9D0,
     0xA9F0, 0xAA50, 0xABF0, 0xFF10, 0x104A0, 0x10D30, 0x11066, 0x110F0, 0x11136,
     0x111D0, 0x112F0, 0x11450, 0x114D0, 0x11650, 0x116C0, 0x11730, 0x118E0, 0x11950,
     0x11C50, 0x11D50, 0x11DA0, 0x16A60, 0x16AC0, 0x16B50, 0x1D7CE, 0x1D7D8, 0x1D7E2,
     0x1D7EC, 0x1D7F6, 0x1E140, 0x1E2F0, 0x1E950, 0x1FBF0]"

definition uni_decimal :: "cp \<Rightarrow> nat option" where
  "uni_decimal c =
     (case List.find (\<lambda>z. z \<le> c \<and> c < z + 10) decimal_zeros of
        None \<Rightarrow> None
      | Some z \<Rightarrow> Some (c - z))"

definition isdecimal :: "cp \<Rightarrow> bool" where
  "isdecimal c = (uni_decimal c \<noteq> None)"

text \<open>
  \<open>str.isdigit\<close> accepts the decimal characters and, besides, the characters whose
  Unicode numeric type is \<open>Digit\<close>: superscripts, subscripts, circled digits and the
  like (\<open>0xB2\<close> is SUPERSCRIPT TWO). \<open>int()\<close> does not accept these.
\<close>

definition digit_only_ranges :: "(cp \<times> cp) list" where
  "digit_only_ranges =
    [(0xB2, 0xB3), (0xB9, 0xB9), (0x1369, 0x1371), (0x19DA, 0x19DA), (0x2070, 0x2070),
     (0x2074, 0x2079), (0x2080, 0x2089), (0x2460, 0x2468), (0x2474, 0x247C),
     (0x2488, 0x2490), (0x24EA, 0x24EA), (0x24F5, 0x24FD), (0x24FF, 0x24FF),
     (0x2776, 0x277E), (0x2780, 0x2788), (0x278A, 0x2792), (0x10A40, 0x10A43),
     (0x10E60, 0x10E68), (0x11052, 0x1105A), (0x1F100, 0x1F10A)]"

definition isdigit :: "cp \<Rightarrow> bool" where
  "isdigit c = (isdecimal c \<or> list_ex (\<lambda>(a, b). a \<le> c \<and> c \<le> b) digit_only_ranges)"

text \<open>
  Integers are unbounded, but CPython converts between integers and decimal strings only
  up to \<open>sys.get_int_max_str_digits()\<close> digits, 4300 unless the interpreter is told
  otherwise, and raises \<open>ValueError\<close> beyond: \<open>int()\<close> counts every digit
  character of its argument (leading zeros too), formatting counts the digits of the
  absolute value.
\<close>

definition int_max_str_digits :: nat where
  "int_max_str_digits = 4300"

text \<open>
  \<open>int(s)\<close> on the strings that reach it here. Every such string is made of characters
  that passed \<open>\d\<close>, \<open>isdigit\<close> or the digit table, so it holds no sign, blank or
  underscore: \<open>int\<close> returns the decimal value when the string is not empty, every
  character is decimal and there are no more of them than the limit, and raises
  \<open>ValueError\<close> otherwise.
\<close>

definition decimal_val :: "cp \<Rightarrow> int" where
  "decimal_val c = (case uni_decimal c of None \<Rightarrow> 0 | Some v \<Rightarrow> int v)"

definition py_int :: "ustr \<Rightarrow> error + int" where
  "py_int s =
     (if s \<noteq> [] \<and> list_all isdecimal s
      then (if int_max_str_digits < length s then Inl ValueError
            else Inr (foldl (\<lambda>a c. 10 * a + decimal_val c) 0 s))
      else Inl ValueError)"

text \<open>
  \<open>str(n)\<close>, which the source applies to the values of the digit table only (0 to 9, one
  digit each), and the format specification \<open>0wd\<close>: \<open>zero_pad\<close> is its text,
  sign-aware zero padding to width \<open>w\<close>, and \<open>fmt_0d\<close> the conversion, which raises
  \<open>ValueError\<close> when the number has more digits than the limit.
  \<open>format_date\<close> is the f-string \<open>{year:04d}-{month:02d}-{day:02d}\<close> of
  \<open>_make_repl\<close> and of the delimiter pass, \<open>canonical_date\<close> the text it returns
  when it returns.
\<close>

fun str_nat :: "nat \<Rightarrow> ustr" where
  "str_nat n = (if n < 10 then [0x30 + n] else str_nat (n div 10) @ [0x30 + n mod 10])"

declare str_nat.simps [simp del]

definition py_str :: "int \<Rightarrow> ustr" where
  "py_str n = (if n < 0 then 0x2D # str_nat (nat (- n)) else str_nat (nat n))"

definition zfill :: "nat \<Rightarrow> ustr \<Rightarrow> ustr" where
  "zfill w s = replicate (w - length s) 0x30 @ s"

definition zero_pad :: "nat \<Rightarrow> int \<Rightarrow> ustr" where
  "zero_pad w n =
     (if n < 0 then 0x2D # zfill (w - 1) (str_nat (nat (- n))) else zfill w (str_nat (nat n)))"

definition num_digits :: "int \<Rightarrow> nat" where
  "num_digits n = length (str_nat (nat \<bar>n\<bar>))"

definition fmt_0d :: "nat \<Rightarrow> int \<Rightarrow> error + ustr" where
  "fmt_0d w n =
     (if int_max_str_digits < num_digits n then Inl ValueError else Inr (zero_pad w n))"

definition canonical_date :: "int \<Rightarrow> int \<Rightarrow> int \<Rightarrow> ustr" where
  "canonical_date year month day =
     zero_pad 4 year @ [0x2D] @ zero_pad 2 month @ [0x2D] @ zero_pad 2 day"

definition format_date :: "int \<Rightarrow> int \<Rightarrow> int \<Rightarrow> error + ustr" where
  "format_date year month day =
     (case fmt_0d 4 year of
        Inl e \<Rightarrow> Inl e
      | Inr ys \<Rightarrow>
          (case fmt_0d 2 month of
             Inl e \<Rightarrow> Inl e
           | Inr ms \<Rightarrow>
               (case fmt_0d 2 day of
                  Inl e \<Rightarrow> Inl e
                | Inr ds \<Rightarrow> Inr (ys @ [0x2D] @ ms @ [0x2D] @ ds))))"

section \<open>The regular expressions of the date patterns\<close>

text \<open>
  The four patterns use literals, character classes, greedy bounded or unbounded
  repetition of one class, sequence, ordered alternation and capture groups. The
  matcher is a backtracking one, as Python's: \<open>rmatch r (s, g)\<close> lists, in the order
  the engine tries them, the ways \<open>r\<close> can match a prefix of \<open>s\<close>, each as the
  remaining input and the groups captured so far. The engine's match is the first.
  Groups are neither nested nor repeated in these patterns, so the order in which
  they close is their numbering.
\<close>

datatype re =
    Lit ustr
  | Cls "cp \<Rightarrow> bool"
  | Rep "cp \<Rightarrow> bool" nat "nat option"
  | Seq re re
  | Alt re re
  | Grp re

type_synonym mstate = "ustr \<times> ustr list"

text \<open>Greedy repetition: one more character first, stopping here second.\<close>

fun rep_cls :: "(cp \<Rightarrow> bool) \<Rightarrow> nat \<Rightarrow> nat option \<Rightarrow> ustr \<Rightarrow> ustr list" where
  "rep_cls P mn mx [] = (if mn = 0 then [[]] else [])"
| "rep_cls P mn mx (c # cs) =
     (if P c \<and> mx \<noteq> Some 0
      then rep_cls P (mn - 1) (map_option (\<lambda>k. k - 1) mx) cs else [])
     @ (if mn = 0 then [c # cs] else [])"

fun rmatch :: "re \<Rightarrow> mstate \<Rightarrow> mstate list" where
  "rmatch (Lit w) (s, g) = (if take (length w) s = w then [(drop (length w) s, g)] else [])"
| "rmatch (Cls P) (s, g) = (case s of [] \<Rightarrow> [] | c # cs \<Rightarrow> if P c then [(cs, g)] else [])"
| "rmatch (Rep P mn mx) (s, g) = map (\<lambda>r. (r, g)) (rep_cls P mn mx s)"
| "rmatch (Seq a b) st = concat (map (rmatch b) (rmatch a st))"
| "rmatch (Alt a b) st = rmatch a st @ rmatch b st"
| "rmatch (Grp a) (s, g) =
     map (\<lambda>(r, g'). (r, g' @ [take (length s - length r) s])) (rmatch a (s, g))"

definition re_match :: "re \<Rightarrow> ustr \<Rightarrow> mstate option" where
  "re_match r s = (case rmatch r (s, []) of [] \<Rightarrow> None | m # _ \<Rightarrow> Some m)"

definition re_fullmatch :: "re \<Rightarrow> ustr \<Rightarrow> mstate option" where
  "re_fullmatch r s = List.find (\<lambda>(rest, g). rest = []) (rmatch r (s, []))"

text \<open>
  \<open>re.sub\<close>: scan from the left; at a match, emit the replacement of its groups and go
  on behind the match; elsewhere copy one character. A replacement that raises ends
  the substitution. (An empty match is replaced and the scan moves one character on;
  none of the patterns below can match the empty string.)
\<close>

fun re_sub :: "re \<Rightarrow> (ustr list \<Rightarrow> error + ustr) \<Rightarrow> ustr \<Rightarrow> error + ustr" where
  "re_sub r repl s =
     (case re_match r s of
        None \<Rightarrow>
          (case s of
             [] \<Rightarrow> Inr []
           | c # cs \<Rightarrow> (case re_sub r repl cs of Inl e \<Rightarrow> Inl e | Inr t \<Rightarrow> Inr (c # t)))
      | Some (rest, g) \<Rightarrow>
          (case repl g of
             Inl e \<Rightarrow> Inl e
           | Inr out \<Rightarrow>
               if length rest < length s
               then (case re_sub r repl rest of Inl e \<Rightarrow> Inl e | Inr t \<Rightarrow> Inr (out @ t))
               else (case s of
                       [] \<Rightarrow> Inr out
                     | c # cs \<Rightarrow>
                         (case re_sub r repl cs of
                            Inl e \<Rightarrow> Inl e | Inr t \<Rightarrow> Inr (out @ c # t)))))"

declare re_sub.simps [simp del]

section \<open>The numeral converter\<close>

text \<open>
  The class tables. The keys are the code points of the kanji: \<open>0x96F6\<close> and
  \<open>0x3007\<close> are the two zeros, \<open>0x4E00\<close> is one, ..., \<open>0x4E5D\<close> nine;
  \<open>0x5341\<close>, \<open>0x767E\<close>, \<open>0x5343\<close> are ten, hundred, thousand; \<open>0x4E07\<close>,
  \<open>0x5104\<close>, \<open>0x5146\<close> are ten thousand, hundred million, trillion.
\<close>

definition KANJI_NUM :: "cp \<Rightarrow> int option" where
  "KANJI_NUM = map_of
     [(0x96F6, 0), (0x3007, 0), (0x4E00, 1), (0x4E8C, 2), (0x4E09, 3), (0x56DB, 4),
      (0x4E94, 5), (0x516D, 6), (0x4E03, 7), (0x516B, 8), (0x4E5D, 9)]"

definition UNIT_SMALL :: "cp \<Rightarrow> int option" where
  "UNIT_SMALL = map_of [(0x5341, 10), (0x767E, 100), (0x5343, 1000)]"

definition UNIT_LARGE :: "cp \<Rightarrow> int option" where
  "UNIT_LARGE = map_of [(0x4E07, 10 ^ 4), (0x5104, 10 ^ 8), (0x5146, 10 ^ 12)]"

text \<open>The era tables: \<open>ERA_MAP\<close> is keyed by the two-character era name,
  \<open>ERA_ABBR_MAP\<close> by the letter R, H, S, T or M.\<close>

definition ERA_MAP :: "ustr \<Rightarrow> int option" where
  "ERA_MAP = map_of
     [([0x4EE4, 0x548C], 2019), ([0x5E73, 0x6210], 1989), ([0x662D, 0x548C], 1926),
      ([0x5927, 0x6B63], 1912), ([0x660E, 0x6CBB], 1868)]"

definition ERA_ABBR_MAP :: "ustr \<Rightarrow> int option" where
  "ERA_ABBR_MAP = map_of
     [([0x52], 2019), ([0x48], 1989), ([0x53], 1926), ([0x54], 1912), ([0x4D], 1868)]"

text \<open>\<open>FW_MAP\<close> sends the full-width digits to the ASCII digits.\<close>

definition FW_MAP :: "cp \<Rightarrow> cp option" where
  "FW_MAP = map_of (zip [0xFF10 ..< 0xFF1A] [0x30 ..< 0x3A])"

definition translate :: "(cp \<Rightarrow> cp option) \<Rightarrow> ustr \<Rightarrow> ustr" where
  "translate tbl s = map (\<lambda>c. case tbl c of None \<Rightarrow> c | Some d \<Rightarrow> d) s"

text \<open>\<open>parse_small\<close>: the loop over the characters carries \<open>(tot, num)\<close>.\<close>

fun parse_small_loop :: "ustr \<Rightarrow> int \<times> int \<Rightarrow> int \<times> int" where
  "parse_small_loop [] st = st"
| "parse_small_loop (ch # s) (tot, num) =
     (case KANJI_NUM ch of
        Some v \<Rightarrow> parse_small_loop s (tot, v)
      | None \<Rightarrow>
          (case UNIT_SMALL ch of
             Some unit \<Rightarrow> parse_small_loop s (tot + (if num = 0 then 1 else num) * unit, 0)
           | None \<Rightarrow> parse_small_loop s (tot, num)))"

definition parse_small :: "ustr \<Rightarrow> int" where
  "parse_small s = (case parse_small_loop s (0, 0) of (tot, num) \<Rightarrow> tot + num)"

text \<open>\<open>kanji_to_int\<close>: the loop of the units branch carries \<open>(tot, current)\<close>, the
  loop of the digit-string branch the list \<open>digits\<close>.\<close>

definition has_unit :: "ustr \<Rightarrow> bool" where
  "has_unit s = list_ex (\<lambda>ch. UNIT_SMALL ch \<noteq> None \<or> UNIT_LARGE ch \<noteq> None) s"

fun large_loop :: "ustr \<Rightarrow> int \<times> ustr \<Rightarrow> int \<times> ustr" where
  "large_loop [] st = st"
| "large_loop (ch # s) (tot, current) =
     (case UNIT_LARGE ch of
        Some u \<Rightarrow>
          (let val = parse_small current;
               val = (if val = 0 then 1 else val)
           in large_loop s (tot + val * u, []))
      | None \<Rightarrow> large_loop s (tot, current @ [ch]))"

fun digits_loop :: "ustr \<Rightarrow> ustr list \<Rightarrow> ustr list" where
  "digits_loop [] digits = digits"
| "digits_loop (ch # s) digits =
     (case KANJI_NUM ch of
        Some v \<Rightarrow> digits_loop s (digits @ [py_str v])
      | None \<Rightarrow> if isdigit ch then digits_loop s (digits @ [[ch]]) else digits_loop s digits)"

definition kanji_to_int :: "ustr \<Rightarrow> error + int" where
  "kanji_to_int s =
     (if s = [] then Inr 0
      else if has_unit s
      then (case large_loop s (0, []) of (tot, current) \<Rightarrow> Inr (tot + parse_small current))
      else (let digits = digits_loop s []
            in if digits \<noteq> [] then py_int (concat digits) else Inr 0))"

text \<open>\<open>normalize_number\<close>; \<open>0x5143\<close> is the character for the first year of an era.\<close>

definition re_digits :: re where
  "re_digits = Rep isdecimal 1 None"

definition normalize_number :: "ustr \<Rightarrow> error + int" where
  "normalize_number s =
     (if s = [0x5143] then Inr 1
      else if re_fullmatch re_digits s \<noteq> None then py_int s
      else kanji_to_int s)"

section \<open>The date rewriter\<close>

text \<open>\<open>calendar.monthrange(year, month)[1]\<close>, from the standard library: the month is
  checked, the weekday computation cannot raise (it maps a year outside 1..9999 into
  range first), and the number of days is the table entry plus the leap day.\<close>

definition isleap :: "int \<Rightarrow> bool" where
  "isleap year = (year mod 4 = 0 \<and> (year mod 100 \<noteq> 0 \<or> year mod 400 = 0))"

definition mdays :: "int list" where
  "mdays = [0, 31, 28, 31, 30, 31, 30, 31, 31, 30, 31, 30, 31]"

definition monthrange_ndays :: "int \<Rightarrow> int \<Rightarrow> error + int" where
  "monthrange_ndays year month =
     (if \<not> (1 \<le> month \<and> month \<le> 12) then Inl (IllegalMonthError month)
      else Inr (mdays ! nat month + (if month = 2 \<and> isleap year then 1 else 0)))"

text \<open>The characters of the patterns: \<open>0x5E74\<close> year, \<open>0x6708\<close> month, \<open>0x65E5\<close> day,
  \<open>0x672B\<close> followed by \<open>0x65E5\<close> the end of the month.\<close>

definition c_nen :: cp where "c_nen = 0x5E74"
definition c_gatsu :: cp where "c_gatsu = 0x6708"
definition c_nichi :: cp where "c_nichi = 0x65E5"
definition s_matsujitsu :: ustr where "s_matsujitsu = [0x672B, 0x65E5]"

definition kanji_num_chars :: "cp \<Rightarrow> bool" where
  "kanji_num_chars c =
     (c = 0x5143 \<or> isdecimal c \<or>
      c \<in> set [0x4E00, 0x4E8C, 0x4E09, 0x56DB, 0x4E94, 0x516D, 0x4E03, 0x516B, 0x4E5D,
                0x5341, 0x767E, 0x3007])"

definition seireki_year_chars :: "cp \<Rightarrow> bool" where
  "seireki_year_chars c =
     ((0xFF10 \<le> c \<and> c \<le> 0xFF19) \<or> isdecimal c \<or>
      c \<in> set [0x3007, 0x4E00, 0x4E8C, 0x4E09, 0x56DB, 0x4E94, 0x516D, 0x4E03, 0x516B,
                0x4E5D, 0x5341, 0x767E, 0x5343])"

definition make_repl :: "ustr \<Rightarrow> ustr \<Rightarrow> ustr \<Rightarrow> int option \<Rightarrow> error + ustr" where
  "make_repl era_year month day_str era_base =
     (case normalize_number era_year of
        Inl e \<Rightarrow> Inl e
      | Inr y0 \<Rightarrow>
          (let year = (case era_base of
                         None \<Rightarrow> y0
                       | Some b \<Rightarrow> if b \<noteq> 0 then b + y0 - 1 else y0)
           in case normalize_number month of
                Inl e \<Rightarrow> Inl e
              | Inr mth \<Rightarrow>
                  (case (if day_str = s_matsujitsu then monthrange_ndays year mth
                         else normalize_number (butlast day_str)) of
                     Inl e \<Rightarrow> Inl e
                   | Inr day \<Rightarrow> format_date year mth day)))"

text \<open>Pass 1, era names.\<close>

definition day_group :: re where
  "day_group = Grp (Alt (Lit s_matsujitsu) (Seq (Rep kanji_num_chars 1 None) (Lit [c_nichi])))"

definition era_pattern :: re where
  "era_pattern =
     Seq (Grp (Alt (Lit [0x660E, 0x6CBB]) (Alt (Lit [0x5927, 0x6B63])
            (Alt (Lit [0x662D, 0x548C]) (Alt (Lit [0x5E73, 0x6210]) (Lit [0x4EE4, 0x548C]))))))
     (Seq (Grp (Rep kanji_num_chars 1 None))
     (Seq (Lit [c_nen])
     (Seq (Grp (Rep kanji_num_chars 1 None))
     (Seq (Lit [c_gatsu]) day_group))))"

definition era_repl :: "ustr list \<Rightarrow> error + ustr" where
  "era_repl groups =
     (case groups of
        [era, y, mth, d] \<Rightarrow>
          (case ERA_MAP era of None \<Rightarrow> Inl KeyError | Some b \<Rightarrow> make_repl y mth d (Some b))
      | _ \<Rightarrow> Inl ValueError)"

text \<open>Pass 2, Gregorian years.\<close>

definition seireki_pattern :: re where
  "seireki_pattern =
     Seq (Grp (Rep seireki_year_chars 2 (Some 4)))
     (Seq (Lit [c_nen])
     (Seq (Grp (Rep kanji_num_chars 1 None))
     (Seq (Lit [c_gatsu]) day_group)))"

definition seireki_repl :: "ustr list \<Rightarrow> error + ustr" where
  "seireki_repl groups =
     (case groups of
        [y, mth, d] \<Rightarrow> make_repl y mth d None
      | _ \<Rightarrow> Inl ValueError)"

text \<open>Pass 3, era letters.\<close>

definition abbr_pattern :: re where
  "abbr_pattern =
     Seq (Grp (Cls (\<lambda>c. c \<in> set [0x52, 0x48, 0x53, 0x54, 0x4D])))
     (Seq (Grp (Rep (\<lambda>c. c = 0x5143 \<or> isdecimal c) 1 None))
     (Seq (Cls (\<lambda>c. c \<in> set [c_nen, 0x2E, 0x2F]))
     (Seq (Grp (Rep isdecimal 1 (Some 2)))
     (Seq (Cls (\<lambda>c. c \<in> set [c_gatsu, 0x2E, 0x2F]))
     (Seq (Grp (Alt (Lit s_matsujitsu) (Rep isdecimal 1 (Some 2))))
          (Rep (\<lambda>c. c = c_nichi) 0 (Some 1)))))))"

definition abbr_repl :: "ustr list \<Rightarrow> error + ustr" where
  "abbr_repl groups =
     (case groups of
        [era_abbr, y, mth, d] \<Rightarrow>
          (case ERA_ABBR_MAP era_abbr of
             None \<Rightarrow> Inl KeyError
           | Some b \<Rightarrow> make_repl y mth d (Some b))
      | _ \<Rightarrow> Inl ValueError)"

text \<open>Pass 4, delimited numeric dates.\<close>

definition delim_pattern :: re where
  "delim_pattern =
     Seq (Grp (Rep isdecimal 4 (Some 4)))
     (Seq (Cls (\<lambda>c. c \<in> set [0x2E, 0x2F]))
     (Seq (Grp (Rep isdecimal 1 (Some 2)))
     (Seq (Cls (\<lambda>c. c \<in> set [0x2E, 0x2F]))
          (Grp (Rep isdecimal 1 (Some 2))))))"

definition delim_repl :: "ustr list \<Rightarrow> error + ustr" where
  "delim_repl groups =
     (case groups of
        [g1, g2, g3] \<Rightarrow>
          (case py_int g1 of
             Inl e \<Rightarrow> Inl e
           | Inr y \<Rightarrow>
               (case py_int g2 of
                  Inl e \<Rightarrow> Inl e
                | Inr mth \<Rightarrow>
                    (case py_int g3 of
                       Inl e \<Rightarrow> Inl e
                     | Inr d \<Rightarrow> format_date y mth d)))
      | _ \<Rightarrow> Inl ValueError)"

text \<open>\<open>replace_dates\<close> runs the four passes in order, each on the text the one before
  returned; \<open>normalize\<close> folds the full-width digits first.\<close>

definition replace_dates :: "ustr \<Rightarrow> error + ustr" where
  "replace_dates text =
     (case re_sub era_pattern era_repl text of
        Inl e \<Rightarrow> Inl e
      | Inr t1 \<Rightarrow>
          (case re_sub seireki_pattern seireki_repl t1 of
             Inl e \<Rightarrow> Inl e
           | Inr t2 \<Rightarrow>
               (case re_sub abbr_pattern abbr_repl t2 of
                  Inl e \<Rightarrow> Inl e
                | Inr t3 \<Rightarrow> re_sub delim_pattern delim_repl t3)))"

definition normalize :: "ustr \<Rightarrow> error + ustr" where
  "normalize text = replace_dates (translate FW_MAP text)"

section \<open>Auxiliary notions for the proofs\<close>

text \<open>\<open>first_is r st v\<close>: the first way the engine finds to match \<open>r\<close> from state
  \<open>st\<close> ends in state \<open>v\<close>.\<close>

definition first_is :: "re \<Rightarrow> mstate \<Rightarrow> mstate \<Rightarrow> bool" where
  "first_is r st v = (\<exists>rest. rmatch r st = v # rest)"

text \<open>What one character contributes to the list \<open>digits\<close> of the digit-string branch.\<close>

definition digit_item :: "cp \<Rightarrow> ustr option" where
  "digit_item ch =
     (case KANJI_NUM ch of
        Some v \<Rightarrow> Some (py_str v)
      | None \<Rightarrow> if isdigit ch then Some [ch] else None)"

text \<open>The digit-string reading in the specification's words: every character is sent
  through the digit table (a kanji digit to its value, a decimal character to its value, any
  other character to nothing), and the digits found are read as one decimal number, 0 when
  there is none.\<close>

definition spec_digit :: "cp \<Rightarrow> int option" where
  "spec_digit c = (case KANJI_NUM c of Some v \<Rightarrow> Some v | None \<Rightarrow> map_option int (uni_decimal c))"

definition spec_concat_value :: "ustr \<Rightarrow> int" where
  "spec_concat_value s = foldl (\<lambda>a d. 10 * a + d) 0 (List.map_filter spec_digit s)"




text \<open>The characters the units branch looks at: the kanji digits and the units
  (\<open>small_counted\<close> for \<open>parse_small\<close>, which does not look at large units).\<close>

definition counted :: "cp \<Rightarrow> bool" where
  "counted c = (KANJI_NUM c \<noteq> None \<or> UNIT_SMALL c \<noteq> None \<or> UNIT_LARGE c \<noteq> None)"

definition small_counted :: "cp \<Rightarrow> bool" where
  "small_counted c = (KANJI_NUM c \<noteq> None \<or> UNIT_SMALL c \<noteq> None)"

text \<open>The last day of a month in the specification's words: February has 29 days when
  the year is divisible by 4 and not by 100, or by 400, and 28 otherwise; April, June,
  September and November have 30 days, the other months 31.\<close>

definition spec_last_day :: "int \<Rightarrow> int \<Rightarrow> int" where
  "spec_last_day year month =
     (if month = 2
      then (if 4 dvd year \<and> (\<not> 100 dvd year \<or> 400 dvd year) then 29 else 28)
      else if month \<in> {4, 6, 9, 11} then 30 else 31)"

text \<open>The value of a string of decimal characters, and the characters a formatted date
  is made of: the hyphen and the ASCII digits.\<close>

definition decimal_value :: "ustr \<Rightarrow> int" where
  "decimal_value s = foldl (\<lambda>a c. 10 * a + decimal_val c) 0 s"

definition out_char :: "cp \<Rightarrow> bool" where
  "out_char c = (c = 0x2D \<or> (0x30 \<le> c \<and> c \<le> 0x39))"

text \<open>The texts the fourth group of the era-name and Gregorian patterns can hold: the
  end-of-month token, or a numeral of the allowed characters followed by the day
  character.\<close>

definition day_token :: "ustr \<Rightarrow> bool" where
  "day_token dd =
     (dd = s_matsujitsu \<or>
      (dd \<noteq> [] \<and> last dd = c_nichi \<and> butlast dd \<noteq> [] \<and> list_all kanji_num_chars (butlast dd)))"

section \<open>Properties of the matcher\<close>

lemma rep_cls_sound:
  "r \<in> set (rep_cls P mn mx s) \<Longrightarrow>
     \<exists>p. s = p @ r \<and> list_all P p \<and> mn \<le> length p \<and>
         (case mx of None \<Rightarrow> True | Some k \<Rightarrow> length p \<le> k)"
proof (induction s arbitrary: mn mx)
  case Nil
  then show ?case by (auto split: if_splits option.splits)
next
  case (Cons c cs)
  from Cons.prems consider
      (more) "P c" "mx \<noteq> Some 0" "r \<in> set (rep_cls P (mn - 1) (map_option (\<lambda>k. k - 1) mx) cs)"
    | (stop) "mn = 0" "r = c # cs"
    by (auto split: if_splits)
  then show ?case
  proof cases
    case more
    from Cons.IH [OF more(3)] obtain p where
      p: "cs = p @ r" "list_all P p" "mn - 1 \<le> length p"
         "(case map_option (\<lambda>k. k - 1) mx of None \<Rightarrow> True | Some k \<Rightarrow> length p \<le> k)"
      by blast
    have "c # cs = (c # p) @ r" using p(1) by simp
    moreover have "list_all P (c # p)" using more(1) p(2) by simp
    moreover have "mn \<le> length (c # p)" using p(3) by simp
    moreover have "(case mx of None \<Rightarrow> True | Some k \<Rightarrow> length (c # p) \<le> k)"
      using p(4) more(2) by (cases mx) auto
    ultimately show ?thesis by blast
  next
    case stop
    then show ?thesis by (cases mx) auto
  qed
qed

lemma rep_cls_greedy:
  "list_all P y \<Longrightarrow> (case rest of [] \<Rightarrow> True | c # _ \<Rightarrow> \<not> P c) \<Longrightarrow> mn \<le> length y \<Longrightarrow>
   (case mx of None \<Rightarrow> True | Some k \<Rightarrow> length y \<le> k) \<Longrightarrow>
   \<exists>tl. rep_cls P mn mx (y @ rest) = rest # tl"
proof (induction y arbitrary: mn mx)
  case Nil
  then show ?case by (cases rest) auto
next
  case (Cons a y)
  have a: "P a" and y: "list_all P y" using Cons.prems(1) by simp_all
  have mx: "mx \<noteq> Some 0" using Cons.prems(4) by (cases mx) auto
  have b: "(case map_option (\<lambda>k. k - 1) mx of None \<Rightarrow> True | Some k \<Rightarrow> length y \<le> k)"
    using Cons.prems(4) by (cases mx) auto
  have "mn - 1 \<le> length y" using Cons.prems(3) by simp
  from Cons.IH [OF y Cons.prems(2) this b] obtain tl where
    "rep_cls P (mn - 1) (map_option (\<lambda>k. k - 1) mx) (y @ rest) = rest # tl" by blast
  then show ?case using a mx by simp
qed

lemma rmatch_suffix:
  "(rest, g') \<in> set (rmatch r (s, g)) \<Longrightarrow> \<exists>p. s = p @ rest"
proof (induction r arbitrary: s g rest g')
  case (Lit w)
  then show ?case by (auto split: if_splits intro: append_take_drop_id [symmetric])
next
  case (Cls P)
  then show ?case by (cases s) (auto split: if_splits)
next
  case (Rep P mn mx)
  then show ?case using rep_cls_sound [of rest P mn mx s] by auto
next
  case (Seq a b)
  from Seq.prems obtain t h where 1: "(t, h) \<in> set (rmatch a (s, g))"
     and 2: "(rest, g') \<in> set (rmatch b (t, h))" by auto
  from Seq.IH(1) [OF 1] Seq.IH(2) [OF 2] show ?case by auto
next
  case (Alt a b)
  then show ?case by auto
next
  case (Grp a)
  then show ?case by auto
qed

lemma rmatch_subset: "(rest, g') \<in> set (rmatch r (s, g)) \<Longrightarrow> set rest \<subseteq> set s"
  using rmatch_suffix [of rest g' r s g] by auto

lemma first_is_Lit: "first_is (Lit w) (w @ s, g) (s, g)"
  by (simp add: first_is_def)

lemma first_is_Cls: "P c \<Longrightarrow> first_is (Cls P) (c # s, g) (s, g)"
  by (simp add: first_is_def)

lemma first_is_Rep:
  "list_all P y \<Longrightarrow> (case rest of [] \<Rightarrow> True | c # _ \<Rightarrow> \<not> P c) \<Longrightarrow> mn \<le> length y \<Longrightarrow>
   (case mx of None \<Rightarrow> True | Some k \<Rightarrow> length y \<le> k) \<Longrightarrow>
   first_is (Rep P mn mx) (y @ rest, g) (rest, g)"
  using rep_cls_greedy [of P y rest mn mx] by (auto simp: first_is_def)

lemma first_is_Seq: "first_is a st x \<Longrightarrow> first_is b x v \<Longrightarrow> first_is (Seq a b) st v"
  by (auto simp: first_is_def)

lemma first_is_Alt1: "first_is a st v \<Longrightarrow> first_is (Alt a b) st v"
  by (auto simp: first_is_def)

lemma first_is_Alt2: "rmatch a st = [] \<Longrightarrow> first_is b st v \<Longrightarrow> first_is (Alt a b) st v"
  by (auto simp: first_is_def)

lemma first_is_Grp:
  "first_is a (p @ r, g) (r, g') \<Longrightarrow> first_is (Grp a) (p @ r, g) (r, g' @ [p])"
  by (auto simp: first_is_def)

lemma re_match_first: "first_is r (s, []) v \<Longrightarrow> re_match r s = Some v"
  by (auto simp: first_is_def re_match_def)

lemma re_sub_Nil: "re_match r [] = None \<Longrightarrow> re_sub r repl [] = Inr []"
  by (simp add: re_sub.simps)

lemma re_sub_skip: "re_match r (c # cs) = None \<Longrightarrow>
   re_sub r repl (c # cs) = (case re_sub r repl cs of Inl e \<Rightarrow> Inl e | Inr t \<Rightarrow> Inr (c # t))"
  by (subst re_sub.simps) simp

lemma re_sub_hit: "re_match r s = Some (rest, g) \<Longrightarrow> length rest < length s \<Longrightarrow>
   re_sub r repl s = (case repl g of Inl e \<Rightarrow> Inl e | Inr out \<Rightarrow>
       (case re_sub r repl rest of Inl e \<Rightarrow> Inl e | Inr t \<Rightarrow> Inr (out @ t)))"
  by (subst re_sub.simps) (simp split: sum.splits)

lemma re_sub_no_match:
  "(\<And>t. set t \<subseteq> set s \<Longrightarrow> re_match r t = None) \<Longrightarrow> re_sub r repl s = Inr s"
proof (induction s)
  case Nil
  then show ?case by (simp add: re_sub_Nil)
next
  case (Cons c cs)
  have "re_sub r repl cs = Inr cs"
    by (rule Cons.IH) (rule Cons.prems, auto)
  moreover have "re_match r (c # cs) = None" by (rule Cons.prems) simp
  ultimately show ?case by (simp add: re_sub_skip)
qed

lemma dead_Lit: "c \<notin> set s \<Longrightarrow> rmatch (Seq (Lit [c]) b) (s, g) = []"
  by (cases s) auto

lemma dead_Cls: "\<forall>x\<in>set s. \<not> P x \<Longrightarrow> rmatch (Seq (Cls P) b) (s, g) = []"
  by (cases s) auto

lemma dead_Grp_Cls: "\<forall>x\<in>set s. \<not> P x \<Longrightarrow> rmatch (Seq (Grp (Cls P)) b) (s, g) = []"
  by (cases s) auto

lemma dead_Seq:
  "(\<And>t h. set t \<subseteq> set s \<Longrightarrow> rmatch b (t, h) = []) \<Longrightarrow> rmatch (Seq a b) (s, g) = []"
  using rmatch_subset [of _ _ a s g] by (auto simp: concat_eq_Nil_conv)

section \<open>Properties of the numeral converter\<close>

lemmas dec_tab = isdecimal_def uni_decimal_def decimal_zeros_def
lemmas dig_tab = isdigit_def digit_only_ranges_def dec_tab

lemma isdecimal_isdigit: "isdecimal c \<Longrightarrow> isdigit c"
  by (simp add: isdigit_def)

lemma fullmatch_digits: "(re_fullmatch re_digits s \<noteq> None) = (s \<noteq> [] \<and> list_all isdecimal s)"
proof
  assume "re_fullmatch re_digits s \<noteq> None"
  then obtain m where "re_fullmatch re_digits s = Some m" by blast
  then have "[] \<in> set (rep_cls isdecimal 1 None s)"
    by (auto simp: re_fullmatch_def re_digits_def find_Some_iff in_set_conv_nth)
  from rep_cls_sound [OF this] show "s \<noteq> [] \<and> list_all isdecimal s" by auto
next
  assume a: "s \<noteq> [] \<and> list_all isdecimal s"
  then have "1 \<le> length s" by (cases s) auto
  with a rep_cls_greedy [of isdecimal s "[]" 1 None]
  obtain tl where "rep_cls isdecimal 1 None s = [] # tl" by auto
  then show "re_fullmatch re_digits s \<noteq> None"
    by (simp add: re_fullmatch_def re_digits_def)
qed

lemma KANJI_NUM_range: "KANJI_NUM ch = Some v \<Longrightarrow> v \<in> {0, 1, 2, 3, 4, 5, 6, 7, 8, 9}"
  by (simp add: KANJI_NUM_def split: if_splits)

lemma KANJI_NUM_keys:
  "KANJI_NUM ch = Some v \<Longrightarrow>
     ch \<in> set [0x96F6, 0x3007, 0x4E00, 0x4E8C, 0x4E09, 0x56DB, 0x4E94, 0x516D, 0x4E03, 0x516B, 0x4E5D]"
  by (simp add: KANJI_NUM_def split: if_splits)

lemma keys_not_digit:
  "\<forall>c\<in>set [0x96F6, 0x3007, 0x4E00, 0x4E8C, 0x4E09, 0x56DB, 0x4E94, 0x516D, 0x4E03, 0x516B, 0x4E5D,
             0x5341, 0x767E, 0x5343, 0x4E07, 0x5104, 0x5146, 0x5143]. \<not> isdigit c"
  by (simp add: dig_tab)

lemma KANJI_NUM_not_decimal: "KANJI_NUM ch = Some v \<Longrightarrow> \<not> isdigit ch"
  using KANJI_NUM_keys [of ch v] keys_not_digit by auto

lemma unit_keys:
  "UNIT_SMALL ch \<noteq> None \<or> UNIT_LARGE ch \<noteq> None \<Longrightarrow>
     ch \<in> set [0x5341, 0x767E, 0x5343, 0x4E07, 0x5104, 0x5146]"
  by (simp add: UNIT_SMALL_def UNIT_LARGE_def split: if_splits)

lemma unit_not_digit: "UNIT_SMALL ch \<noteq> None \<or> UNIT_LARGE ch \<noteq> None \<Longrightarrow> \<not> isdigit ch"
  using unit_keys [of ch] keys_not_digit by auto

lemma py_str_digit:
  "v \<in> {0, 1, 2, 3, 4, 5, 6, 7, 8, 9} \<Longrightarrow>
     \<exists>c. py_str v = [c] \<and> isdecimal c \<and> decimal_val c = v"
  by (elim insertE emptyE; simp add: py_str_def str_nat.simps decimal_val_def dec_tab)

lemma digits_loop_eq: "digits_loop s acc = acc @ List.map_filter digit_item s"
  by (induction s arbitrary: acc)
     (auto simp: digit_item_def map_filter_simps split: option.splits)

lemma digit_item_sound:
  assumes "isdigit ch \<longrightarrow> isdecimal ch"
  shows "case digit_item ch of
           None \<Rightarrow> spec_digit ch = None
         | Some w \<Rightarrow> \<exists>c. w = [c] \<and> isdecimal c \<and> spec_digit ch = Some (decimal_val c)"
proof (cases "KANJI_NUM ch")
  case None
  show ?thesis
  proof (cases "isdigit ch")
    case True
    with assms have "isdecimal ch" by simp
    then show ?thesis using None True
      by (auto simp: digit_item_def spec_digit_def decimal_val_def isdecimal_def)
  next
    case False
    then have "\<not> isdecimal ch" using isdecimal_isdigit by blast
    then show ?thesis using None False
      by (auto simp: digit_item_def spec_digit_def isdecimal_def)
  qed
next
  case (Some v)
  from py_str_digit [OF KANJI_NUM_range [OF Some]] show ?thesis using Some
    by (auto simp: digit_item_def spec_digit_def)
qed

lemma digits_concat:
  assumes "\<forall>ch\<in>set s. isdigit ch \<longrightarrow> isdecimal ch"
  shows "list_all isdecimal (concat (List.map_filter digit_item s)) \<and>
         map decimal_val (concat (List.map_filter digit_item s)) = List.map_filter spec_digit s \<and>
         (List.map_filter digit_item s = [] \<longleftrightarrow> List.map_filter spec_digit s = [])"
  using assms
proof (induction s)
  case Nil
  then show ?case by (simp add: map_filter_simps)
next
  case (Cons ch s)
  have "isdigit ch \<longrightarrow> isdecimal ch" using Cons.prems by simp
  from digit_item_sound [OF this] Cons show ?case
    by (auto simp: map_filter_simps split: option.splits)
qed

lemma py_int_decimal:
  "s \<noteq> [] \<Longrightarrow> list_all isdecimal s \<Longrightarrow> length s \<le> int_max_str_digits \<Longrightarrow>
     py_int s = Inr (foldl (\<lambda>a d. 10 * a + d) 0 (map decimal_val s))"
  by (simp add: py_int_def foldl_map)

lemma py_int_too_long:
  "int_max_str_digits < length s \<Longrightarrow> py_int s = Inl ValueError"
  by (simp add: py_int_def)

lemma digits_length:
  assumes "\<forall>ch\<in>set s. isdigit ch \<longrightarrow> isdecimal ch"
  shows "length (concat (List.map_filter digit_item s)) = length (List.map_filter spec_digit s)"
  using digits_concat [OF assms] by (metis length_map)

lemma kanji_to_int_digits:
  assumes "\<not> has_unit s" and "\<forall>ch\<in>set s. isdigit ch \<longrightarrow> isdecimal ch"
  shows "kanji_to_int s =
           (if int_max_str_digits < length (List.map_filter spec_digit s) then Inl ValueError
            else Inr (spec_concat_value s))"
proof (cases "s = []")
  case True
  then show ?thesis by (simp add: kanji_to_int_def spec_concat_value_def map_filter_simps)
next
  case False
  note d = digits_concat [OF assms(2)]
  note l = digits_length [OF assms(2)]
  show ?thesis
  proof (cases "List.map_filter digit_item s = []")
    case True
    with d have "List.map_filter spec_digit s = []" by simp
    with True False assms(1) show ?thesis
      by (simp add: kanji_to_int_def digits_loop_eq spec_concat_value_def)
  next
    case ne: False
    with d have "List.map_filter spec_digit s \<noteq> []" by simp
    with d have c: "concat (List.map_filter digit_item s) \<noteq> []"
      by (metis list.map_disc_iff)
    show ?thesis
    proof (cases "int_max_str_digits < length (List.map_filter spec_digit s)")
      case True
      then have "py_int (concat (List.map_filter digit_item s)) = Inl ValueError"
        using l by (simp add: py_int_too_long)
      with True ne False assms(1) show ?thesis
        by (simp add: kanji_to_int_def digits_loop_eq)
    next
      case le: False
      then have "length (concat (List.map_filter digit_item s)) \<le> int_max_str_digits"
        using l by simp
      from py_int_decimal [OF c _ this] d le ne False assms(1) show ?thesis
        by (simp add: kanji_to_int_def digits_loop_eq spec_concat_value_def)
    qed
  qed
qed

lemma decimal_spec_digit: "isdecimal c \<Longrightarrow> spec_digit c = Some (decimal_val c)"
proof -
  assume a: "isdecimal c"
  then have "KANJI_NUM c = None"
    using KANJI_NUM_not_decimal [of c] isdecimal_isdigit by (cases "KANJI_NUM c") auto
  with a show ?thesis by (auto simp: spec_digit_def decimal_val_def isdecimal_def)
qed

lemma map_filter_all_Some:
  "\<forall>x\<in>set xs. f x = Some (g x) \<Longrightarrow> List.map_filter f xs = map g xs"
  by (induction xs) (auto simp: map_filter_simps)

lemma map_filter_length: "length (List.map_filter f xs) \<le> length xs"
  by (induction xs) (auto simp: map_filter_simps split: option.splits)

lemma normalize_number_digits_exact:
  assumes "s \<noteq> [0x5143]" "\<not> has_unit s" "\<forall>ch\<in>set s. isdigit ch \<longrightarrow> isdecimal ch"
  shows "normalize_number s =
           (if int_max_str_digits < length (List.map_filter spec_digit s) then Inl ValueError
            else Inr (spec_concat_value s))"
proof (cases "s \<noteq> [] \<and> list_all isdecimal s")
  case True
  then have m: "List.map_filter spec_digit s = map decimal_val s"
    by (intro map_filter_all_Some) (auto simp: list_all_iff decimal_spec_digit)
  show ?thesis
  proof (cases "int_max_str_digits < length s")
    case long: True
    with True assms(1) m show ?thesis
      unfolding normalize_number_def fullmatch_digits
      by (simp add: py_int_too_long)
  next
    case False
    then have "length s \<le> int_max_str_digits" by simp
    with True assms(1) m show ?thesis
      unfolding normalize_number_def fullmatch_digits
      by (simp add: py_int_decimal spec_concat_value_def)
  qed
next
  case False
  with assms show ?thesis
    unfolding normalize_number_def fullmatch_digits
    by (auto simp: kanji_to_int_digits)
qed

lemma normalize_number_digits:
  assumes "s \<noteq> [0x5143]" "\<not> has_unit s" "\<forall>ch\<in>set s. isdigit ch \<longrightarrow> isdecimal ch"
    "length (List.map_filter spec_digit s) \<le> int_max_str_digits"
  shows "normalize_number s = Inr (spec_concat_value s)"
  using normalize_number_digits_exact [OF assms(1-3)] assms(4) by simp

lemma kanji_to_int_units_total: "has_unit s \<Longrightarrow> \<exists>v. kanji_to_int s = Inr v"
  by (auto simp: kanji_to_int_def split: prod.splits)

lemma normalize_number_total:
  assumes "\<forall>ch\<in>set s. isdigit ch \<longrightarrow> isdecimal ch" "length s \<le> int_max_str_digits"
  shows "\<exists>v. normalize_number s = Inr v"
proof (cases "s = [0x5143]")
  case True
  then show ?thesis by (simp add: normalize_number_def)
next
  case ne: False
  show ?thesis
  proof (cases "has_unit s")
    case True
    then have "\<not> list_all isdecimal s"
      using unit_not_digit isdecimal_isdigit
      by (fastforce simp: has_unit_def list_ex_iff list_all_iff)
    with kanji_to_int_units_total [OF True] show ?thesis
      unfolding normalize_number_def fullmatch_digits by simp
  next
    case False
    have "length (List.map_filter spec_digit s) \<le> int_max_str_digits"
      using map_filter_length [of spec_digit s] assms(2) by simp
    from normalize_number_digits [OF ne False assms(1) this] show ?thesis by blast
  qed
qed

lemmas pats = c_nen_def c_gatsu_def c_nichi_def s_matsujitsu_def kanji_num_chars_def
  seireki_year_chars_def day_group_def era_pattern_def seireki_pattern_def abbr_pattern_def
  delim_pattern_def

lemmas nums = decimal_val_def py_int_def py_str_def zfill_def zero_pad_def num_digits_def
  fmt_0d_def format_date_def canonical_date_def int_max_str_digits_def str_nat.simps
  KANJI_NUM_def UNIT_SMALL_def UNIT_LARGE_def ERA_MAP_def ERA_ABBR_MAP_def parse_small_def
  has_unit_def kanji_to_int_def re_digits_def normalize_number_def isleap_def mdays_def
  monthrange_ndays_def re_fullmatch_def make_repl_def era_repl_def seireki_repl_def
  abbr_repl_def delim_repl_def

lemmas run = normalize_def replace_dates_def translate_def FW_MAP_def
  re_sub_Nil re_sub_skip re_sub_hit re_match_def pats dig_tab nums

section \<open>Properties of the units branch\<close>






lemma parse_small_loop_uncounted:
  "parse_small_loop (filter counted s) st = parse_small_loop s st"
proof (induction s arbitrary: st)
  case Nil
  show ?case by simp
next
  case (Cons ch s)
  obtain tot num where st: "st = (tot, num)" by (cases st)
  show ?case
  proof (cases "counted ch")
    case True
    then show ?thesis by (simp add: st Cons.IH split: option.splits)
  next
    case False
    then have "KANJI_NUM ch = None" "UNIT_SMALL ch = None" by (simp_all add: counted_def)
    with False show ?thesis by (simp add: st Cons.IH)
  qed
qed

lemma parse_small_uncounted: "parse_small (filter counted s) = parse_small s"
  by (simp add: parse_small_def parse_small_loop_uncounted)

lemma large_loop_uncounted:
  "large_loop (filter counted s) (tot, filter counted cur) =
     (case large_loop s (tot, cur) of (t, c) \<Rightarrow> (t, filter counted c))"
proof (induction s arbitrary: tot cur)
  case Nil
  show ?case by simp
next
  case (Cons ch s)
  show ?case
  proof (cases "UNIT_LARGE ch")
    case (Some u)
    then have "counted ch" by (simp add: counted_def)
    with Some show ?thesis
      using Cons.IH [of "tot + (if parse_small cur = 0 then 1 else parse_small cur) * u" "[]"]
      by (simp add: parse_small_uncounted Let_def)
  next
    case None
    then show ?thesis using Cons.IH [of tot "cur @ [ch]"] by (cases "counted ch") simp_all
  qed
qed

lemma has_unit_counted: "has_unit (filter counted s) = has_unit s"
  by (auto simp: has_unit_def list_ex_iff counted_def)

lemma has_unit_nonempty: "has_unit s \<Longrightarrow> s \<noteq> []"
  by (auto simp: has_unit_def)

lemma kanji_to_int_uncounted:
  assumes "has_unit s"
  shows "kanji_to_int (filter counted s) = kanji_to_int s"
proof -
  have h: "has_unit (filter counted s)" using assms by (simp add: has_unit_counted)
  obtain t c where l: "large_loop s (0, []) = (t, c)" by fastforce
  then have "large_loop (filter counted s) (0, []) = (t, filter counted c)"
    using large_loop_uncounted [of s 0 "[]"] by simp
  with l h assms show ?thesis
    using has_unit_nonempty [OF h] has_unit_nonempty [OF assms]
    by (simp add: kanji_to_int_def parse_small_uncounted)
qed




lemma parse_small_loop_small_counted:
  "parse_small_loop (filter small_counted s) st = parse_small_loop s st"
proof (induction s arbitrary: st)
  case Nil
  show ?case by simp
next
  case (Cons ch s)
  obtain tot num where st: "st = (tot, num)" by (cases st)
  show ?case
  proof (cases "small_counted ch")
    case True
    then show ?thesis by (simp add: st Cons.IH split: option.splits)
  next
    case False
    then have "KANJI_NUM ch = None" "UNIT_SMALL ch = None" by (simp_all add: small_counted_def)
    with False show ?thesis by (simp add: st Cons.IH)
  qed
qed

lemma ascii_digit_uncounted: "0x30 \<le> d \<Longrightarrow> d \<le> 0x39 \<Longrightarrow> \<not> counted d"
  by (simp add: counted_def KANJI_NUM_def UNIT_SMALL_def UNIT_LARGE_def)

lemma large_unit_not_small: "UNIT_LARGE u = Some v \<Longrightarrow> KANJI_NUM u = None \<and> UNIT_SMALL u = None"
  by (simp add: UNIT_LARGE_def KANJI_NUM_def UNIT_SMALL_def split: if_splits)

lemma kanji_to_int_uncounted_large:
  assumes "\<not> counted d" "UNIT_LARGE u = Some v"
  shows "kanji_to_int [d, u] = Inr v"
proof -
  have d: "KANJI_NUM d = None" "UNIT_SMALL d = None" "UNIT_LARGE d = None"
    using assms(1) by (simp_all add: counted_def)
  have "has_unit [d, u]" using assms(2) by (simp add: has_unit_def)
  then show ?thesis using d assms(2)
    by (simp add: kanji_to_int_def parse_small_def)
qed





section \<open>Properties of the branches of \<open>normalize_number\<close> and of the end of month\<close>

lemma has_unit_not_decimal: "has_unit s \<Longrightarrow> \<not> list_all isdecimal s"
  using unit_not_digit isdecimal_isdigit
  by (fastforce simp: has_unit_def list_ex_iff list_all_iff)

lemma has_unit_not_gan: "has_unit s \<Longrightarrow> s \<noteq> [0x5143]"
  by (auto simp: has_unit_def UNIT_SMALL_def UNIT_LARGE_def)

lemma normalize_number_units:
  assumes "has_unit s"
  shows "normalize_number s =
           (case large_loop s (0, []) of (tot, current) \<Rightarrow> Inr (tot + parse_small current))"
  using assms has_unit_not_decimal [OF assms] has_unit_not_gan [OF assms]
        has_unit_nonempty [OF assms]
  unfolding normalize_number_def fullmatch_digits
  by (simp add: kanji_to_int_def)

lemma month_cases:
  "1 \<le> m \<Longrightarrow> m \<le> 12 \<Longrightarrow>
     m \<in> {1, 2, 3, 4, 5, 6, 7, 8, 9, 10, 11, 12 :: int}"
  by simp arith

lemma monthrange_spec:
  assumes "1 \<le> month" "month \<le> 12"
  shows "monthrange_ndays year month = Inr (spec_last_day year month)"
proof -
  have l: "isleap year = (4 dvd year \<and> (\<not> 100 dvd year \<or> 400 dvd year))"
    by (simp add: isleap_def dvd_eq_mod_eq_0)
  from month_cases [OF assms] show ?thesis
    by (elim insertE emptyE; simp add: monthrange_ndays_def mdays_def spec_last_day_def l)
qed

lemma make_repl_matsujitsu:
  assumes "normalize_number era_year = Inr y0" "normalize_number month = Inr m"
    "1 \<le> m" "m \<le> 12"
  shows "make_repl era_year month s_matsujitsu era_base =
     (let year = (case era_base of None \<Rightarrow> y0 | Some b \<Rightarrow> if b \<noteq> 0 then b + y0 - 1 else y0)
      in format_date year m (spec_last_day year m))"
  using assms by (simp add: make_repl_def monthrange_spec Let_def)

lemma make_repl_matsujitsu_emitted:
  assumes "make_repl era_year month s_matsujitsu era_base = Inr out"
  shows "\<exists>y0 m. normalize_number era_year = Inr y0 \<and> normalize_number month = Inr m
           \<and> 1 \<le> m \<and> m \<le> 12
           \<and> (let year = (case era_base of None \<Rightarrow> y0
                                  | Some b \<Rightarrow> if b \<noteq> 0 then b + y0 - 1 else y0)
              in format_date year m (spec_last_day year m)) = Inr out"
proof -
  from assms obtain y0 where y0: "normalize_number era_year = Inr y0"
    by (cases "normalize_number era_year") (simp_all add: make_repl_def)
  from assms y0 obtain m where m: "normalize_number month = Inr m"
    by (cases "normalize_number month") (simp_all add: make_repl_def Let_def)
  let ?year = "case era_base of None \<Rightarrow> y0 | Some b \<Rightarrow> if b \<noteq> 0 then b + y0 - 1 else y0"
  have r: "1 \<le> m \<and> m \<le> 12"
  proof (rule ccontr)
    assume "\<not> (1 \<le> m \<and> m \<le> 12)"
    then have "monthrange_ndays ?year m = Inl (IllegalMonthError m)"
      by (simp add: monthrange_ndays_def)
    with assms y0 m show False by (simp add: make_repl_def Let_def)
  qed
  then have "make_repl era_year month s_matsujitsu era_base =
     (let year = ?year in format_date year m (spec_last_day year m))"
    using make_repl_matsujitsu [OF y0 m] by simp
  with assms have "(let year = ?year in format_date year m (spec_last_day year m)) = Inr out"
    by simp
  with y0 m r show ?thesis by blast
qed

section \<open>Texts the patterns cannot match, and the folding of full-width digits\<close>

lemma str_nat_chars: "list_all out_char (str_nat n)"
proof (induction n rule: str_nat.induct)
  case (1 n)
  show ?case
  proof (cases "n < 10")
    case True
    then show ?thesis by (subst str_nat.simps) (simp add: out_char_def)
  next
    case False
    have "n mod 10 < 10" by simp
    then have "out_char (0x30 + n mod 10)" unfolding out_char_def by linarith
    with False 1 show ?thesis by (subst str_nat.simps) simp
  qed
qed

lemma zero_pad_chars: "list_all out_char (zero_pad w n)"
  using str_nat_chars [of "nat n"] str_nat_chars [of "nat (- n)"]
  by (auto simp: zero_pad_def zfill_def list_all_iff out_char_def)

lemma canonical_date_chars: "list_all out_char (canonical_date y m d)"
  using zero_pad_chars by (simp add: canonical_date_def out_char_def)

lemma format_date_cases:
  "format_date y m d =
     (if num_digits y \<le> int_max_str_digits \<and> num_digits m \<le> int_max_str_digits
         \<and> num_digits d \<le> int_max_str_digits
      then Inr (canonical_date y m d) else Inl ValueError)"
  by (simp add: format_date_def fmt_0d_def canonical_date_def)

lemma format_date_text: "format_date y m d = Inr x \<Longrightarrow> x = canonical_date y m d"
  by (simp add: format_date_cases split: if_splits)

lemma canonical_chars:
  assumes "format_date y m d = Inr x"
  shows "list_all out_char x"
  using format_date_text [OF assms] canonical_date_chars by simp

lemma out_char_not_special:
  "list_all out_char s \<Longrightarrow> c_nen \<notin> set s \<and> 0x2E \<notin> set s \<and> 0x2F \<notin> set s"
  by (auto simp: list_all_iff out_char_def c_nen_def)

lemma re_match_dead: "rmatch r (s, []) = [] \<Longrightarrow> re_match r s = None"
  by (simp add: re_match_def)

lemma era_no_nen: "c_nen \<notin> set s \<Longrightarrow> re_sub era_pattern repl s = Inr s"
proof (rule re_sub_no_match)
  fix t assume a: "c_nen \<notin> set s" "set t \<subseteq> set s"
  have "rmatch era_pattern (t, []) = []"
    unfolding era_pattern_def
    by (rule dead_Seq, rule dead_Seq, rule dead_Lit) (use a in auto)
  then show "re_match era_pattern t = None" by (rule re_match_dead)
qed

lemma seireki_no_nen: "c_nen \<notin> set s \<Longrightarrow> re_sub seireki_pattern repl s = Inr s"
proof (rule re_sub_no_match)
  fix t assume a: "c_nen \<notin> set s" "set t \<subseteq> set s"
  have "rmatch seireki_pattern (t, []) = []"
    unfolding seireki_pattern_def
    by (rule dead_Seq, rule dead_Lit) (use a in auto)
  then show "re_match seireki_pattern t = None" by (rule re_match_dead)
qed

lemma abbr_no_sep:
  assumes "c_nen \<notin> set s" "0x2E \<notin> set s" "0x2F \<notin> set s"
  shows "re_sub abbr_pattern repl s = Inr s"
proof (rule re_sub_no_match)
  fix t assume a: "set t \<subseteq> set s"
  have "rmatch abbr_pattern (t, []) = []"
    unfolding abbr_pattern_def
    by (rule dead_Seq, rule dead_Seq, rule dead_Cls) (use a assms in auto)
  then show "re_match abbr_pattern t = None" by (rule re_match_dead)
qed

lemma abbr_no_letter:
  assumes "\<forall>x\<in>set s. x \<notin> set [0x52, 0x48, 0x53, 0x54, 0x4D]"
  shows "re_sub abbr_pattern repl s = Inr s"
proof (rule re_sub_no_match)
  fix t assume a: "set t \<subseteq> set s"
  have "rmatch abbr_pattern (t, []) = []"
    unfolding abbr_pattern_def
    by (rule dead_Grp_Cls) (use a assms in auto)
  then show "re_match abbr_pattern t = None" by (rule re_match_dead)
qed

lemma delim_no_sep:
  assumes "0x2E \<notin> set s" "0x2F \<notin> set s"
  shows "re_sub delim_pattern repl s = Inr s"
proof (rule re_sub_no_match)
  fix t assume a: "set t \<subseteq> set s"
  have "rmatch delim_pattern (t, []) = []"
    unfolding delim_pattern_def
    by (rule dead_Seq, rule dead_Cls) (use a assms in auto)
  then show "re_match delim_pattern t = None" by (rule re_match_dead)
qed

lemma replace_dates_fixed:
  assumes "c_nen \<notin> set s" "0x2E \<notin> set s" "0x2F \<notin> set s"
  shows "replace_dates s = Inr s"
  using assms
  by (simp add: replace_dates_def era_no_nen seireki_no_nen abbr_no_sep delim_no_sep)

lemma FW_MAP_eq:
  "FW_MAP c = (if 0xFF10 \<le> c \<and> c \<le> 0xFF19 then Some (c - 0xFF10 + 0x30) else None)"
  by (simp add: FW_MAP_def) arith

lemma translate_append: "translate tbl (a @ b) = translate tbl a @ translate tbl b"
  by (simp add: translate_def)

lemma translate_length: "length (translate tbl s) = length s"
  by (simp add: translate_def)

lemma translate_fixed:
  "\<forall>c\<in>set s. \<not> (0xFF10 \<le> c \<and> c \<le> 0xFF19) \<Longrightarrow> translate FW_MAP s = s"
  by (induction s) (auto simp: translate_def FW_MAP_eq)

lemma translate_chars:
  "c \<in> set (translate FW_MAP s) \<Longrightarrow> c \<in> set s \<or> (0x30 \<le> c \<and> c \<le> 0x39)"
  by (auto simp: translate_def FW_MAP_eq split: if_splits)

lemma translate_not_special:
  assumes "c_nen \<notin> set s" "0x2E \<notin> set s" "0x2F \<notin> set s"
  shows "c_nen \<notin> set (translate FW_MAP s) \<and> 0x2E \<notin> set (translate FW_MAP s)
         \<and> 0x2F \<notin> set (translate FW_MAP s)"
  using assms translate_chars [of c_nen s] translate_chars [of "0x2E" s]
    translate_chars [of "0x2F" s]
  by (auto simp: c_nen_def)

lemma translate_idem: "translate FW_MAP (translate FW_MAP s) = translate FW_MAP s"
proof (rule translate_fixed, rule ballI)
  fix c assume "c \<in> set (translate FW_MAP s)"
  then show "\<not> (0xFF10 \<le> c \<and> c \<le> 0xFF19)"
    by (auto simp: translate_def FW_MAP_eq split: if_splits)
qed

lemma translate_out_chars: "list_all out_char s \<Longrightarrow> translate FW_MAP s = s"
  by (rule translate_fixed) (auto simp: list_all_iff out_char_def)

lemma fw_cases:
  "0xFF10 \<le> c \<Longrightarrow> c \<le> 0xFF19 \<Longrightarrow>
     c \<in> {0xFF10, 0xFF11, 0xFF12, 0xFF13, 0xFF14, 0xFF15, 0xFF16, 0xFF17, 0xFF18, 0xFF19 :: nat}"
  by simp arith

lemma translate_decimal_char:
  assumes "isdecimal c"
  shows "isdecimal (case FW_MAP c of None \<Rightarrow> c | Some d \<Rightarrow> d) \<and>
         decimal_val (case FW_MAP c of None \<Rightarrow> c | Some d \<Rightarrow> d) = decimal_val c"
proof (cases "0xFF10 \<le> c \<and> c \<le> 0xFF19")
  case True
  then have "c \<in> {0xFF10, 0xFF11, 0xFF12, 0xFF13, 0xFF14, 0xFF15, 0xFF16, 0xFF17, 0xFF18,
                   0xFF19 :: nat}"
    using fw_cases by blast
  then show ?thesis
    by (elim insertE emptyE; simp add: FW_MAP_eq decimal_val_def dec_tab)
next
  case False
  with assms show ?thesis by (auto simp: FW_MAP_eq)
qed

lemma translate_decimal:
  "list_all isdecimal s \<Longrightarrow>
     list_all isdecimal (translate FW_MAP s) \<and>
     map decimal_val (translate FW_MAP s) = map decimal_val s"
  using translate_decimal_char by (induction s) (simp_all add: translate_def)

lemma decimal_value_map: "decimal_value s = foldl (\<lambda>a d. 10 * a + d) 0 (map decimal_val s)"
  by (simp add: decimal_value_def foldl_map)

lemma translate_decimal_value:
  "list_all isdecimal s \<Longrightarrow> decimal_value (translate FW_MAP s) = decimal_value s"
  using translate_decimal [of s] by (simp add: decimal_value_map)

lemma py_int_value:
  "s \<noteq> [] \<Longrightarrow> list_all isdecimal s \<Longrightarrow> length s \<le> int_max_str_digits \<Longrightarrow>
     py_int s = Inr (decimal_value s)"
  by (simp add: py_int_def decimal_value_def)

lemma not_decimal_specials:
  "\<forall>c\<in>set [0x2E, 0x2F, 0x5E74, 0x6708, 0x65E5, 0x672B, 0x52, 0x48, 0x53, 0x54, 0x4D].
      \<not> isdecimal c"
  by (simp add: dec_tab)

lemma not_kanji_specials:
  "\<forall>c\<in>set [0x5E74, 0x6708, 0x65E5, 0x672B]. \<not> kanji_num_chars c"
  by (simp add: kanji_num_chars_def dec_tab)

section \<open>The delimiter pass on a whole date, and texts in canonical form\<close>

lemma re_sub_whole:
  assumes "first_is r (s, []) ([], g)" "s \<noteq> []" "rmatch r ([], []) = []"
  shows "re_sub r repl s = repl g"
proof -
  have m: "re_match r s = Some ([], g)" using assms(1) by (rule re_match_first)
  have e: "re_sub r repl [] = Inr []"
    using assms(3) by (simp add: re_sub_Nil re_match_dead)
  from assms(2) have "length ([] :: ustr) < length s" by simp
  from re_sub_hit [OF m this, of repl] e show ?thesis
    by (simp split: sum.splits)
qed

lemma re_sub_prefix:
  "(\<forall>k<length pre. re_match r (drop k (pre @ s)) = None) \<Longrightarrow>
     re_sub r repl (pre @ s) =
       (case re_sub r repl s of Inl e \<Rightarrow> Inl e | Inr t \<Rightarrow> Inr (pre @ t))"
proof (induction pre)
  case Nil
  show ?case by (simp split: sum.splits)
next
  case (Cons c pre)
  have 0: "re_match r ((c # pre) @ s) = None" using Cons.prems by force
  have "\<forall>k<length pre. re_match r (drop k (pre @ s)) = None"
  proof (intro allI impI)
    fix k assume "k < length pre"
    then have "Suc k < length (c # pre)" by simp
    with Cons.prems have "re_match r (drop (Suc k) ((c # pre) @ s)) = None" by blast
    then show "re_match r (drop k (pre @ s)) = None" by simp
  qed
  from Cons.IH [OF this] 0 show ?case
    by (simp add: re_sub_skip split: sum.splits)
qed

lemma re_match_mem: "re_match r s = Some v \<Longrightarrow> v \<in> set (rmatch r (s, []))"
  by (auto simp: re_match_def split: list.splits)

lemma inv_Seq:
  "v \<in> set (rmatch (Seq a b) st) \<Longrightarrow> \<exists>x. x \<in> set (rmatch a st) \<and> v \<in> set (rmatch b x)"
  by auto

lemma inv_Lit: "(r, g') \<in> set (rmatch (Lit w) (s, g)) \<Longrightarrow> s = w @ r \<and> g' = g"
proof -
  assume "(r, g') \<in> set (rmatch (Lit w) (s, g))"
  then have a: "take (length w) s = w" "r = drop (length w) s" "g' = g"
    by (auto split: if_splits)
  have "s = take (length w) s @ drop (length w) s" by simp
  with a show ?thesis by simp
qed

lemma inv_Cls: "(r, g') \<in> set (rmatch (Cls P) (s, g)) \<Longrightarrow> \<exists>c. s = c # r \<and> P c \<and> g' = g"
  by (cases s) (auto split: if_splits)

lemma inv_Rep:
  assumes "(r, g') \<in> set (rmatch (Rep P mn mx) (s, g))"
  shows "g' = g \<and> (\<exists>p. s = p @ r \<and> list_all P p \<and> mn \<le> length p \<and>
           (case mx of None \<Rightarrow> True | Some k \<Rightarrow> length p \<le> k))"
proof -
  from assms have "g' = g" and "r \<in> set (rep_cls P mn mx s)" by auto
  with rep_cls_sound [of r P mn mx s] show ?thesis by blast
qed

lemma inv_Grp:
  "(r, g') \<in> set (rmatch (Grp a) (s, g)) \<Longrightarrow>
     \<exists>g0. (r, g0) \<in> set (rmatch a (s, g)) \<and> g' = g0 @ [take (length s - length r) s]"
  by auto

lemma inv_Grp_Rep:
  assumes "(r, g') \<in> set (rmatch (Grp (Rep P mn mx)) (s, g))"
  shows "\<exists>p. s = p @ r \<and> g' = g @ [p] \<and> list_all P p \<and> mn \<le> length p \<and>
           (case mx of None \<Rightarrow> True | Some k \<Rightarrow> length p \<le> k)"
proof -
  from inv_Grp [OF assms] obtain g0 where
    a: "(r, g0) \<in> set (rmatch (Rep P mn mx) (s, g))"
    and b: "g' = g0 @ [take (length s - length r) s]" by blast
  from inv_Rep [OF a] obtain p where
    p: "g0 = g" "s = p @ r" "list_all P p" "mn \<le> length p"
       "(case mx of None \<Rightarrow> True | Some k \<Rightarrow> length p \<le> k)" by blast
  have "take (length s - length r) s = p" using p(2) by simp
  with b p show ?thesis by blast
qed

lemma inv_Grp_Cls:
  assumes "(r, g') \<in> set (rmatch (Grp (Cls P)) (s, g))"
  shows "\<exists>c. s = c # r \<and> P c \<and> g' = g @ [[c]]"
proof -
  from inv_Grp [OF assms] obtain g0 where
    a: "(r, g0) \<in> set (rmatch (Cls P) (s, g))"
    and b: "g' = g0 @ [take (length s - length r) s]" by blast
  from inv_Cls [OF a] obtain c where c: "s = c # r" "P c" "g0 = g" by blast
  then have "take (length s - length r) s = [c]" by simp
  with b c show ?thesis by blast
qed

text \<open>Digits and lengths: a number below \<open>10 ^ k\<close> has at most \<open>k\<close> digits, so it
  formats; the value of \<open>k\<close> decimal characters is below \<open>10 ^ k\<close>.\<close>

lemma str_nat_length: "0 < k \<Longrightarrow> n < 10 ^ k \<Longrightarrow> length (str_nat n) \<le> k"
proof (induction k arbitrary: n)
  case 0
  then show ?case by simp
next
  case (Suc k)
  show ?case
  proof (cases "n < 10")
    case True
    then show ?thesis by (subst str_nat.simps) simp
  next
    case False
    then have k: "0 < k" using Suc.prems(2) by (cases k) auto
    have "n div 10 < 10 ^ k" using Suc.prems(2) by (simp add: less_mult_imp_div_less mult.commute)
    from Suc.IH [OF k this] False show ?thesis by (subst str_nat.simps) simp
  qed
qed

lemma num_digits_small:
  assumes "0 \<le> n" "n < 10 ^ k" "0 < k"
  shows "num_digits n \<le> k"
proof -
  have "nat \<bar>n\<bar> < 10 ^ k" using assms(1,2) by (simp add: nat_less_iff)
  from str_nat_length [OF assms(3) this] show ?thesis by (simp add: num_digits_def)
qed

lemma uni_decimal_range: "uni_decimal c = Some v \<Longrightarrow> v < 10"
  by (auto simp: uni_decimal_def find_Some_iff split: option.splits)

lemma decimal_val_range: "0 \<le> decimal_val c \<and> decimal_val c \<le> 9"
  using uni_decimal_range [of c] by (auto simp: decimal_val_def split: option.splits)

lemma decimal_value_snoc: "decimal_value (s @ [c]) = 10 * decimal_value s + decimal_val c"
  by (simp add: decimal_value_def)

lemma decimal_value_range: "0 \<le> decimal_value s \<and> decimal_value s < 10 ^ length s"
proof (induction s rule: rev_induct)
  case Nil
  show ?case by (simp add: decimal_value_def)
next
  case (snoc c s)
  from snoc decimal_val_range [of c] show ?case
    by (simp add: decimal_value_snoc)
qed

lemma decimal_not_special:
  "isdecimal c \<Longrightarrow> c \<notin> set [0x2E, 0x2F, 0x5E74, 0x6708, 0x65E5, 0x672B, 0x52, 0x48, 0x53, 0x54, 0x4D]"
  using not_decimal_specials by blast

lemma delim_match:
  assumes y: "length y = 4" "list_all isdecimal y"
    and m: "length m = 1 \<or> length m = 2" "list_all isdecimal m"
    and d: "length d = 1 \<or> length d = 2" "list_all isdecimal d"
    and s: "s1 = 0x2E \<or> s1 = 0x2F" "s2 = 0x2E \<or> s2 = 0x2F"
  shows "first_is delim_pattern (y @ [s1] @ m @ [s2] @ d, []) ([], [y, m, d])"
proof -
  have n1: "\<not> isdecimal s1" and n2: "\<not> isdecimal s2"
    using s not_decimal_specials by auto
  have g1: "first_is (Grp (Rep isdecimal 4 (Some 4))) (y @ ([s1] @ m @ [s2] @ d), [])
              ([s1] @ m @ [s2] @ d, [] @ [y])"
    by (rule first_is_Grp, rule first_is_Rep) (use y n1 in auto)
  have c1: "first_is (Cls (\<lambda>c. c \<in> set [0x2E, 0x2F])) ([s1] @ m @ [s2] @ d, [] @ [y])
              (m @ [s2] @ d, [y])"
    using s first_is_Cls [of "\<lambda>c. c \<in> set [0x2E, 0x2F]" s1 "m @ [s2] @ d" "[y]"] by auto
  have g2: "first_is (Grp (Rep isdecimal 1 (Some 2))) (m @ ([s2] @ d), [y])
              ([s2] @ d, [y] @ [m])"
    by (rule first_is_Grp, rule first_is_Rep) (use m n2 in auto)
  have c2: "first_is (Cls (\<lambda>c. c \<in> set [0x2E, 0x2F])) ([s2] @ d, [y] @ [m]) (d, [y, m])"
    using s first_is_Cls [of "\<lambda>c. c \<in> set [0x2E, 0x2F]" s2 d "[y, m]"] by auto
  have g3: "first_is (Grp (Rep isdecimal 1 (Some 2))) (d @ [], [y, m]) ([], [y, m] @ [d])"
    by (rule first_is_Grp, rule first_is_Rep) (use d in auto)
  show ?thesis
    unfolding delim_pattern_def
    using g1 c1 g2 c2 g3 by (auto intro!: first_is_Seq)
qed

lemma format_date_small:
  assumes "0 \<le> y" "y < 10 ^ ky" "0 < ky" "ky \<le> int_max_str_digits"
    and "0 \<le> m" "m < 10 ^ km" "0 < km" "km \<le> int_max_str_digits"
    and "0 \<le> d" "d < 10 ^ kd" "0 < kd" "kd \<le> int_max_str_digits"
  shows "format_date y m d = Inr (canonical_date y m d)"
  using num_digits_small [OF assms(1-3)] num_digits_small [OF assms(5-7)]
    num_digits_small [OF assms(9-11)] assms(4,8,12)
  by (simp add: format_date_cases)

lemma delim_repl_value:
  assumes "length y = 4" "list_all isdecimal y"
    "length m = 1 \<or> length m = 2" "list_all isdecimal m"
    "length d = 1 \<or> length d = 2" "list_all isdecimal d"
  shows "delim_repl [y, m, d] =
     Inr (canonical_date (decimal_value y) (decimal_value m) (decimal_value d))"
proof -
  have l: "length y \<le> int_max_str_digits" "length m \<le> int_max_str_digits"
    "length d \<le> int_max_str_digits" "0 < length y" "0 < length m" "0 < length d"
    using assms by (auto simp: int_max_str_digits_def)
  then have ne: "y \<noteq> []" "m \<noteq> []" "d \<noteq> []" by auto
  have p: "py_int y = Inr (decimal_value y)" "py_int m = Inr (decimal_value m)"
    "py_int d = Inr (decimal_value d)"
    using ne assms l by (simp_all add: py_int_value)
  have f: "format_date (decimal_value y) (decimal_value m) (decimal_value d) =
     Inr (canonical_date (decimal_value y) (decimal_value m) (decimal_value d))"
    using decimal_value_range [of y] decimal_value_range [of m] decimal_value_range [of d] l
    by (intro format_date_small [of _ "length y" _ "length m" _ "length d"]) simp_all
  show ?thesis by (simp add: delim_repl_def p f)
qed

lemma delim_inv:
  assumes "(rest, g) \<in> set (rmatch delim_pattern (s, []))"
  shows "\<exists>y s1 m s2 d. s = y @ [s1] @ m @ [s2] @ d @ rest \<and> g = [y, m, d]
           \<and> length y = 4 \<and> list_all isdecimal y
           \<and> (length m = 1 \<or> length m = 2) \<and> list_all isdecimal m
           \<and> (length d = 1 \<or> length d = 2) \<and> list_all isdecimal d
           \<and> (s1 = 0x2E \<or> s1 = 0x2F) \<and> (s2 = 0x2E \<or> s2 = 0x2F)"
proof -
  from assms [unfolded delim_pattern_def] inv_Seq obtain r1 g1 where
    a1: "(r1, g1) \<in> set (rmatch (Grp (Rep isdecimal 4 (Some 4))) (s, []))"
    and b1: "(rest, g) \<in> set (rmatch
        (Seq (Cls (\<lambda>c. c \<in> set [0x2E, 0x2F]))
        (Seq (Grp (Rep isdecimal 1 (Some 2)))
        (Seq (Cls (\<lambda>c. c \<in> set [0x2E, 0x2F]))
             (Grp (Rep isdecimal 1 (Some 2)))))) (r1, g1))"
    by (metis surj_pair)
  from inv_Grp_Rep [OF a1] obtain y where
    y: "s = y @ r1" "g1 = [y]" "list_all isdecimal y" "4 \<le> length y" "length y \<le> 4"
    by auto
  from b1 inv_Seq obtain r2 g2 where
    a2: "(r2, g2) \<in> set (rmatch (Cls (\<lambda>c. c \<in> set [0x2E, 0x2F])) (r1, g1))"
    and b2: "(rest, g) \<in> set (rmatch
        (Seq (Grp (Rep isdecimal 1 (Some 2)))
        (Seq (Cls (\<lambda>c. c \<in> set [0x2E, 0x2F]))
             (Grp (Rep isdecimal 1 (Some 2))))) (r2, g2))"
    by (metis surj_pair)
  from inv_Cls [OF a2] obtain s1 where
    s1: "r1 = s1 # r2" "s1 \<in> set [0x2E, 0x2F]" "g2 = g1" by blast
  from b2 inv_Seq obtain r3 g3 where
    a3: "(r3, g3) \<in> set (rmatch (Grp (Rep isdecimal 1 (Some 2))) (r2, g2))"
    and b3: "(rest, g) \<in> set (rmatch
        (Seq (Cls (\<lambda>c. c \<in> set [0x2E, 0x2F]))
             (Grp (Rep isdecimal 1 (Some 2)))) (r3, g3))"
    by (metis surj_pair)
  from inv_Grp_Rep [OF a3] obtain m where
    m: "r2 = m @ r3" "g3 = g2 @ [m]" "list_all isdecimal m" "1 \<le> length m" "length m \<le> 2"
    by auto
  from b3 inv_Seq obtain r4 g4 where
    a4: "(r4, g4) \<in> set (rmatch (Cls (\<lambda>c. c \<in> set [0x2E, 0x2F])) (r3, g3))"
    and b4: "(rest, g) \<in> set (rmatch (Grp (Rep isdecimal 1 (Some 2))) (r4, g4))"
    by (metis surj_pair)
  from inv_Cls [OF a4] obtain s2 where
    s2: "r3 = s2 # r4" "s2 \<in> set [0x2E, 0x2F]" "g4 = g3" by blast
  from inv_Grp_Rep [OF b4] obtain d where
    d: "r4 = d @ rest" "g = g4 @ [d]" "list_all isdecimal d" "1 \<le> length d" "length d \<le> 2"
    by auto
  have "s = y @ [s1] @ m @ [s2] @ d @ rest" using y(1) s1(1) m(1) s2(1) d(1) by simp
  moreover have "g = [y, m, d]" using y(2) s1(3) m(2) s2(3) d(2) by simp
  moreover have "length y = 4" using y(4,5) by simp
  moreover have "length m = 1 \<or> length m = 2" using m(4,5) by arith
  moreover have "length d = 1 \<or> length d = 2" using d(4,5) by arith
  moreover have "s1 = 0x2E \<or> s1 = 0x2F" "s2 = 0x2E \<or> s2 = 0x2F" using s1(2) s2(2) by auto
  ultimately show ?thesis using y(3) m(3) d(3) by blast
qed

lemma delim_pass_total: "\<exists>t. re_sub delim_pattern delim_repl x = Inr t"
proof (induction x rule: length_induct)
  case (1 x)
  show ?case
  proof (cases "re_match delim_pattern x")
    case None
    show ?thesis
    proof (cases x)
      case Nil
      with None show ?thesis by (simp add: re_sub_Nil)
    next
      case (Cons c cs)
      then have "length cs < length x" by simp
      with 1 obtain t where "re_sub delim_pattern delim_repl cs = Inr t" by blast
      with None Cons show ?thesis by (simp add: re_sub_skip)
    qed
  next
    case (Some v)
    obtain rest g where v: "v = (rest, g)" by (cases v)
    from delim_inv [OF re_match_mem [OF Some [unfolded v]]] obtain y s1 m s2 d where
      i: "x = y @ [s1] @ m @ [s2] @ d @ rest" "g = [y, m, d]"
         "length y = 4" "list_all isdecimal y"
         "length m = 1 \<or> length m = 2" "list_all isdecimal m"
         "length d = 1 \<or> length d = 2" "list_all isdecimal d"
      by blast
    have l: "length rest < length x" using i(1) by simp
    with 1 obtain t where t: "re_sub delim_pattern delim_repl rest = Inr t" by blast
    from re_sub_hit [OF Some [unfolded v] l, of delim_repl] t
      delim_repl_value [OF i(3-8)] i(2)
    show ?thesis by simp
  qed
qed

lemma delim_pass_at_match:
  assumes "\<forall>k<length pre. re_match delim_pattern (drop k (pre @ s)) = None"
    and "re_match delim_pattern s = Some (rest, g)"
  shows "\<exists>y s1 m s2 d t. s = y @ [s1] @ m @ [s2] @ d @ rest
           \<and> length y = 4 \<and> list_all isdecimal y
           \<and> (length m = 1 \<or> length m = 2) \<and> list_all isdecimal m
           \<and> (length d = 1 \<or> length d = 2) \<and> list_all isdecimal d
           \<and> (s1 = 0x2E \<or> s1 = 0x2F) \<and> (s2 = 0x2E \<or> s2 = 0x2F)
           \<and> re_sub delim_pattern delim_repl rest = Inr t
           \<and> re_sub delim_pattern delim_repl (pre @ s) =
               Inr (pre @ canonical_date (decimal_value y) (decimal_value m) (decimal_value d)
                    @ t)"
proof -
  from delim_inv [OF re_match_mem [OF assms(2)]] obtain y s1 m s2 d where
    i: "s = y @ [s1] @ m @ [s2] @ d @ rest" "g = [y, m, d]"
       "length y = 4" "list_all isdecimal y"
       "length m = 1 \<or> length m = 2" "list_all isdecimal m"
       "length d = 1 \<or> length d = 2" "list_all isdecimal d"
       "s1 = 0x2E \<or> s1 = 0x2F" "s2 = 0x2E \<or> s2 = 0x2F"
    by blast
  obtain t where t: "re_sub delim_pattern delim_repl rest = Inr t"
    using delim_pass_total by blast
  have l: "length rest < length s" using i(1) by simp
  have "re_sub delim_pattern delim_repl s =
      Inr (canonical_date (decimal_value y) (decimal_value m) (decimal_value d) @ t)"
    using re_sub_hit [OF assms(2) l, of delim_repl] t delim_repl_value [OF i(3-8)] i(2)
    by simp
  with re_sub_prefix [OF assms(1), of delim_repl]
  have "re_sub delim_pattern delim_repl (pre @ s) =
      Inr (pre @ canonical_date (decimal_value y) (decimal_value m) (decimal_value d) @ t)"
    by simp
  with i t show ?thesis by blast
qed

lemma not_decimal_facts:
  "\<not> isdecimal 0x2E" "\<not> isdecimal 0x2F" "\<not> isdecimal 0x5E74" "\<not> isdecimal 0x52"
  "\<not> isdecimal 0x48" "\<not> isdecimal 0x53" "\<not> isdecimal 0x54" "\<not> isdecimal 0x4D"
  using not_decimal_specials by simp_all

lemma delim_text_chars:
  assumes "list_all isdecimal y" "list_all isdecimal m" "list_all isdecimal d"
    "s1 = 0x2E \<or> s1 = 0x2F" "s2 = 0x2E \<or> s2 = 0x2F"
  shows "c_nen \<notin> set (y @ [s1] @ m @ [s2] @ d)"
    and "\<forall>c\<in>set (y @ [s1] @ m @ [s2] @ d). c \<notin> set [0x52, 0x48, 0x53, 0x54, 0x4D]"
proof -
  have chars: "\<And>c. c \<in> set (y @ [s1] @ m @ [s2] @ d) \<Longrightarrow> isdecimal c \<or> c = 0x2E \<or> c = 0x2F"
    using assms by (auto simp: list_all_iff)
  show "c_nen \<notin> set (y @ [s1] @ m @ [s2] @ d)"
  proof
    assume "c_nen \<in> set (y @ [s1] @ m @ [s2] @ d)"
    from chars [OF this] show False using not_decimal_facts by (simp add: c_nen_def)
  qed
  show "\<forall>c\<in>set (y @ [s1] @ m @ [s2] @ d). c \<notin> set [0x52, 0x48, 0x53, 0x54, 0x4D]"
  proof
    fix c assume "c \<in> set (y @ [s1] @ m @ [s2] @ d)"
    from chars [OF this] show "c \<notin> set [0x52, 0x48, 0x53, 0x54, 0x4D]"
      using not_decimal_facts by (elim disjE) auto
  qed
qed

lemma replace_dates_delim:
  assumes y: "length y = 4" "list_all isdecimal y"
    and m: "length m = 1 \<or> length m = 2" "list_all isdecimal m"
    and d: "length d = 1 \<or> length d = 2" "list_all isdecimal d"
    and s: "s1 = 0x2E \<or> s1 = 0x2F" "s2 = 0x2E \<or> s2 = 0x2F"
  shows "replace_dates (y @ [s1] @ m @ [s2] @ d) =
     Inr (canonical_date (decimal_value y) (decimal_value m) (decimal_value d))"
proof -
  let ?x = "y @ [s1] @ m @ [s2] @ d"
  note c = delim_text_chars [OF y(2) m(2) d(2) s]
  have p1: "re_sub era_pattern era_repl ?x = Inr ?x" using c(1) by (rule era_no_nen)
  have p2: "re_sub seireki_pattern seireki_repl ?x = Inr ?x" using c(1) by (rule seireki_no_nen)
  have p3: "re_sub abbr_pattern abbr_repl ?x = Inr ?x" using c(2) by (rule abbr_no_letter)
  have ne: "y \<noteq> []" "m \<noteq> []" "d \<noteq> []" using y m d by auto
  have e: "rmatch delim_pattern ([], []) = []" by (simp add: delim_pattern_def)
  have "?x \<noteq> []" using ne by simp
  from re_sub_whole [OF delim_match [OF y m d s] this e]
  have p4: "re_sub delim_pattern delim_repl ?x = delim_repl [y, m, d]" .
  have r: "replace_dates ?x = delim_repl [y, m, d]"
    unfolding replace_dates_def p1 p2 p3 p4 sum.case ..
  show ?thesis
    unfolding r using y m d by (rule delim_repl_value)
qed

lemma normalize_delim:
  assumes y: "length y = 4" "list_all isdecimal y"
    and m: "length m = 1 \<or> length m = 2" "list_all isdecimal m"
    and d: "length d = 1 \<or> length d = 2" "list_all isdecimal d"
    and s: "s1 = 0x2E \<or> s1 = 0x2F" "s2 = 0x2E \<or> s2 = 0x2F"
  shows "normalize (y @ [s1] @ m @ [s2] @ d) =
     Inr (canonical_date (decimal_value y) (decimal_value m) (decimal_value d))"
proof -
  have t: "translate FW_MAP (y @ [s1] @ m @ [s2] @ d) =
     translate FW_MAP y @ [s1] @ translate FW_MAP m @ [s2] @ translate FW_MAP d"
    using s by (auto simp: translate_def FW_MAP_eq)
  show ?thesis
    unfolding normalize_def t
    using replace_dates_delim [of "translate FW_MAP y" "translate FW_MAP m"
        "translate FW_MAP d" s1 s2]
      y m d s translate_decimal [of y] translate_decimal [of m] translate_decimal [of d]
    by (simp add: translate_length translate_decimal_value)
qed

lemma normalize_canonical: "normalize (canonical_date y m d) = Inr (canonical_date y m d)"
proof -
  let ?x = "canonical_date y m d"
  have c: "list_all out_char ?x" by (rule canonical_date_chars)
  have t: "translate FW_MAP ?x = ?x" using c by (rule translate_out_chars)
  from out_char_not_special [OF c] have "replace_dates ?x = Inr ?x"
    by (intro replace_dates_fixed) simp_all
  then show ?thesis unfolding normalize_def t .
qed

lemma normalize_twice:
  assumes "c_nen \<notin> set x" "0x2E \<notin> set x" "0x2F \<notin> set x"
  shows "normalize x = Inr (translate FW_MAP x)"
    and "normalize (translate FW_MAP x) = Inr (translate FW_MAP x)"
proof -
  from translate_not_special [OF assms]
  have r: "replace_dates (translate FW_MAP x) = Inr (translate FW_MAP x)"
    by (intro replace_dates_fixed) simp_all
  show "normalize x = Inr (translate FW_MAP x)" unfolding normalize_def by (rule r)
  show "normalize (translate FW_MAP x) = Inr (translate FW_MAP x)"
    unfolding normalize_def translate_idem by (rule r)
qed

section \<open>The era-name pass\<close>

lemma ERA_MAP_names:
  "ERA_MAP e = Some b \<Longrightarrow>
     (e = [0x4EE4, 0x548C] \<or> e = [0x5E73, 0x6210] \<or> e = [0x662D, 0x548C]
      \<or> e = [0x5927, 0x6B63] \<or> e = [0x660E, 0x6CBB]) \<and> b \<noteq> 0"
  by (simp add: ERA_MAP_def split: if_splits)

lemma era_name_match:
  assumes "ERA_MAP e = Some b"
  shows "first_is
     (Grp (Alt (Lit [0x660E, 0x6CBB]) (Alt (Lit [0x5927, 0x6B63])
        (Alt (Lit [0x662D, 0x548C]) (Alt (Lit [0x5E73, 0x6210]) (Lit [0x4EE4, 0x548C]))))))
     (e @ rest, []) (rest, [] @ [e])"
  using ERA_MAP_names [OF assms] by (auto simp: first_is_def)

lemma not_kanji_facts:
  "\<not> kanji_num_chars c_nen" "\<not> kanji_num_chars c_gatsu" "\<not> kanji_num_chars c_nichi"
  "\<not> kanji_num_chars 0x672B"
  using not_kanji_specials by (simp_all add: c_nen_def c_gatsu_def c_nichi_def)

lemma kanji_group_match:
  assumes "y \<noteq> []" "list_all kanji_num_chars y" "\<not> kanji_num_chars c"
  shows "first_is (Grp (Rep kanji_num_chars 1 None)) (y @ (c # rest), g) (c # rest, g @ [y])"
proof (rule first_is_Grp, rule first_is_Rep)
  show "list_all kanji_num_chars y" by fact
  show "case c # rest of [] \<Rightarrow> True | c # x \<Rightarrow> \<not> kanji_num_chars c" using assms(3) by simp
  show "1 \<le> length y" using assms(1) by (cases y) simp_all
  show "case None of None \<Rightarrow> True | Some k \<Rightarrow> length y \<le> k" by simp
qed

lemma day_group_match:
  assumes "d \<noteq> []" "list_all kanji_num_chars d"
  shows "first_is day_group (d @ [c_nichi], g) ([], g @ [d @ [c_nichi]])"
proof -
  obtain a d' where d: "d = a # d'" using assms(1) by (cases d) auto
  then have "kanji_num_chars a" using assms(2) by simp
  then have "a \<noteq> 0x672B" using not_kanji_facts(4) by auto
  then have n: "rmatch (Lit s_matsujitsu) (d @ [c_nichi], g) = []"
    by (simp add: d s_matsujitsu_def)
  have r: "first_is (Rep kanji_num_chars 1 None) (d @ [c_nichi], g) ([c_nichi], g)"
    by (rule first_is_Rep) (use assms not_kanji_facts(3) d in auto)
  have l: "first_is (Lit [c_nichi]) ([c_nichi] @ [], g) ([], g)" by (rule first_is_Lit)
  have "first_is (Alt (Lit s_matsujitsu) (Seq (Rep kanji_num_chars 1 None) (Lit [c_nichi])))
          ((d @ [c_nichi]) @ [], g) ([], g)"
    using n r l by (auto intro!: first_is_Alt2 first_is_Seq)
  then have "first_is day_group ((d @ [c_nichi]) @ [], g) ([], g @ [d @ [c_nichi]])"
    unfolding day_group_def by (rule first_is_Grp)
  then show ?thesis by simp
qed

lemma day_group_match_matsu:
  "first_is day_group (s_matsujitsu, g) ([], g @ [s_matsujitsu])"
proof -
  have "first_is (Lit s_matsujitsu) (s_matsujitsu @ [], g) ([], g)" by (rule first_is_Lit)
  then have "first_is (Alt (Lit s_matsujitsu) (Seq (Rep kanji_num_chars 1 None) (Lit [c_nichi])))
          (s_matsujitsu @ [], g) ([], g)"
    by (rule first_is_Alt1)
  then have "first_is day_group (s_matsujitsu @ [], g) ([], g @ [s_matsujitsu])"
    unfolding day_group_def by (rule first_is_Grp)
  then show ?thesis by simp
qed

lemma day_token_match:
  assumes "day_token dd"
  shows "first_is day_group (dd, g) ([], g @ [dd])"
proof (cases "dd = s_matsujitsu")
  case True
  then show ?thesis by (simp add: day_group_match_matsu)
next
  case False
  with assms have d: "dd \<noteq> []" "last dd = c_nichi" "butlast dd \<noteq> []"
    "list_all kanji_num_chars (butlast dd)" by (auto simp: day_token_def)
  have "dd = butlast dd @ [c_nichi]" using d(1,2) by (metis append_butlast_last_id)
  with day_group_match [OF d(3,4), of g] show ?thesis by simp
qed

lemma era_match:
  assumes e: "ERA_MAP e = Some b"
    and y: "y \<noteq> []" "list_all kanji_num_chars y"
    and m: "m \<noteq> []" "list_all kanji_num_chars m"
    and d: "day_token dd"
  shows "first_is era_pattern (e @ y @ [c_nen] @ m @ [c_gatsu] @ dd, [])
           ([], [e, y, m, dd])"
proof -
  have 1: "first_is
     (Grp (Alt (Lit [0x660E, 0x6CBB]) (Alt (Lit [0x5927, 0x6B63])
        (Alt (Lit [0x662D, 0x548C]) (Alt (Lit [0x5E73, 0x6210]) (Lit [0x4EE4, 0x548C]))))))
     (e @ y @ [c_nen] @ m @ [c_gatsu] @ dd, [])
     (y @ [c_nen] @ m @ [c_gatsu] @ dd, [e])"
    using era_name_match [OF e, of "y @ [c_nen] @ m @ [c_gatsu] @ dd"] by simp
  have 2: "first_is (Grp (Rep kanji_num_chars 1 None))
     (y @ [c_nen] @ m @ [c_gatsu] @ dd, [e])
     ([c_nen] @ m @ [c_gatsu] @ dd, [e, y])"
    using kanji_group_match [OF y not_kanji_facts(1), of "m @ [c_gatsu] @ dd" "[e]"]
    by simp
  have 3: "first_is (Lit [c_nen]) ([c_nen] @ m @ [c_gatsu] @ dd, [e, y])
     (m @ [c_gatsu] @ dd, [e, y])"
    by (rule first_is_Lit)
  have 4: "first_is (Grp (Rep kanji_num_chars 1 None))
     (m @ [c_gatsu] @ dd, [e, y])
     ([c_gatsu] @ dd, [e, y, m])"
    using kanji_group_match [OF m not_kanji_facts(2), of dd "[e, y]"] by simp
  have 5: "first_is (Lit [c_gatsu]) ([c_gatsu] @ dd, [e, y, m]) (dd, [e, y, m])"
    by (rule first_is_Lit)
  have 6: "first_is day_group (dd, [e, y, m]) ([], [e, y, m, dd])"
    using day_token_match [OF d, of "[e, y, m]"] by simp
  show ?thesis
    unfolding era_pattern_def
    by (rule first_is_Seq [OF 1], rule first_is_Seq [OF 2], rule first_is_Seq [OF 3],
        rule first_is_Seq [OF 4], rule first_is_Seq [OF 5], rule 6)
qed

lemma kanji_chars_digit: "kanji_num_chars c \<Longrightarrow> isdigit c \<longrightarrow> isdecimal c"
proof
  assume k: "kanji_num_chars c" and dg: "isdigit c"
  show "isdecimal c"
  proof (rule ccontr)
    assume nd: "\<not> isdecimal c"
    with k have "c \<in> set [0x96F6, 0x3007, 0x4E00, 0x4E8C, 0x4E09, 0x56DB, 0x4E94, 0x516D, 0x4E03,
        0x516B, 0x4E5D, 0x5341, 0x767E, 0x5343, 0x4E07, 0x5104, 0x5146, 0x5143]"
      by (auto simp: kanji_num_chars_def)
    with keys_not_digit have "\<not> isdigit c" by blast
    with dg show False by simp
  qed
qed

lemma normalize_number_kanji:
  "list_all kanji_num_chars s \<Longrightarrow> length s \<le> int_max_str_digits \<Longrightarrow>
     \<exists>v. normalize_number s = Inr v"
  by (rule normalize_number_total) (simp_all add: list_all_iff kanji_chars_digit)

lemma ERA_MAP_values:
  "ERA_MAP [0x660E, 0x6CBB] = Some 1868" "ERA_MAP [0x5927, 0x6B63] = Some 1912"
  "ERA_MAP [0x662D, 0x548C] = Some 1926" "ERA_MAP [0x5E73, 0x6210] = Some 1989"
  "ERA_MAP [0x4EE4, 0x548C] = Some 2019"
  by (simp_all add: ERA_MAP_def)

lemma inv_Alt:
  "v \<in> set (rmatch (Alt a b) st) \<Longrightarrow> v \<in> set (rmatch a st) \<or> v \<in> set (rmatch b st)"
  by simp

lemma era_name_inv:
  assumes "(r, g) \<in> set (rmatch
     (Grp (Alt (Lit [0x660E, 0x6CBB]) (Alt (Lit [0x5927, 0x6B63])
        (Alt (Lit [0x662D, 0x548C]) (Alt (Lit [0x5E73, 0x6210]) (Lit [0x4EE4, 0x548C]))))))
     (s, []))"
  shows "\<exists>e b. s = e @ r \<and> g = [e] \<and> ERA_MAP e = Some b"
proof -
  from inv_Grp [OF assms] obtain g0 where
    a: "(r, g0) \<in> set (rmatch
        (Alt (Lit [0x660E, 0x6CBB]) (Alt (Lit [0x5927, 0x6B63])
        (Alt (Lit [0x662D, 0x548C]) (Alt (Lit [0x5E73, 0x6210]) (Lit [0x4EE4, 0x548C])))))
        (s, []))"
    and g: "g = g0 @ [take (length s - length r) s]" by blast
  from a have "\<exists>e. (r, g0) \<in> set (rmatch (Lit e) (s, [])) \<and>
      e \<in> set [[0x660E, 0x6CBB], [0x5927, 0x6B63], [0x662D, 0x548C], [0x5E73, 0x6210],
                [0x4EE4, 0x548C]]"
    by (auto dest!: inv_Alt simp del: rmatch.simps)
  then obtain e where e: "(r, g0) \<in> set (rmatch (Lit e) (s, []))"
    and n: "e \<in> set [[0x660E, 0x6CBB], [0x5927, 0x6B63], [0x662D, 0x548C], [0x5E73, 0x6210],
                [0x4EE4, 0x548C]]"
    by blast
  from inv_Lit [OF e] have s: "s = e @ r" "g0 = []" by simp_all
  then have "take (length s - length r) s = e" by simp
  with g s have "g = [e]" by simp
  moreover from n ERA_MAP_values have "\<exists>b. ERA_MAP e = Some b" by auto
  ultimately show ?thesis using s(1) by blast
qed

lemma day_group_inv:
  assumes "(r, g') \<in> set (rmatch day_group (s, g))"
  shows "\<exists>dd. s = dd @ r \<and> g' = g @ [dd] \<and> day_token dd"
proof -
  from inv_Grp [OF assms [unfolded day_group_def]] obtain g0 where
    a: "(r, g0) \<in> set (rmatch
          (Alt (Lit s_matsujitsu) (Seq (Rep kanji_num_chars 1 None) (Lit [c_nichi]))) (s, g))"
    and g: "g' = g0 @ [take (length s - length r) s]" by blast
  from inv_Alt [OF a] show ?thesis
  proof
    assume "(r, g0) \<in> set (rmatch (Lit s_matsujitsu) (s, g))"
    from inv_Lit [OF this] have s: "s = s_matsujitsu @ r" "g0 = g" by simp_all
    then have "take (length s - length r) s = s_matsujitsu" by simp
    with g s show ?thesis by (auto simp: day_token_def)
  next
    assume "(r, g0) \<in> set (rmatch (Seq (Rep kanji_num_chars 1 None) (Lit [c_nichi])) (s, g))"
    from inv_Seq [OF this] obtain r1 g1 where
      b: "(r1, g1) \<in> set (rmatch (Rep kanji_num_chars 1 None) (s, g))"
      and c: "(r, g0) \<in> set (rmatch (Lit [c_nichi]) (r1, g1))"
      by (metis surj_pair)
    from inv_Rep [OF b] obtain d where
      d: "g1 = g" "s = d @ r1" "list_all kanji_num_chars d" "1 \<le> length d" by blast
    from inv_Lit [OF c] have l: "r1 = [c_nichi] @ r" "g0 = g1" by simp_all
    have s: "s = (d @ [c_nichi]) @ r" using d(2) l(1) by simp
    then have "take (length s - length r) s = d @ [c_nichi]" by simp
    moreover have "day_token (d @ [c_nichi])" using d(3,4) by (auto simp: day_token_def)
    ultimately show ?thesis using g s l(2) d(1) by blast
  qed
qed

lemma era_inv:
  assumes "(rest, g) \<in> set (rmatch era_pattern (s, []))"
  shows "\<exists>e b y m dd. s = e @ y @ [c_nen] @ m @ [c_gatsu] @ dd @ rest \<and> g = [e, y, m, dd]
           \<and> ERA_MAP e = Some b
           \<and> y \<noteq> [] \<and> list_all kanji_num_chars y \<and> m \<noteq> [] \<and> list_all kanji_num_chars m
           \<and> day_token dd"
proof -
  from assms [unfolded era_pattern_def] inv_Seq obtain r1 g1 where
    a1: "(r1, g1) \<in> set (rmatch
     (Grp (Alt (Lit [0x660E, 0x6CBB]) (Alt (Lit [0x5927, 0x6B63])
        (Alt (Lit [0x662D, 0x548C]) (Alt (Lit [0x5E73, 0x6210]) (Lit [0x4EE4, 0x548C]))))))
     (s, []))"
    and b1: "(rest, g) \<in> set (rmatch
     (Seq (Grp (Rep kanji_num_chars 1 None))
     (Seq (Lit [c_nen])
     (Seq (Grp (Rep kanji_num_chars 1 None))
     (Seq (Lit [c_gatsu]) day_group)))) (r1, g1))"
    by (metis surj_pair)
  from era_name_inv [OF a1] obtain e b where
    e: "s = e @ r1" "g1 = [e]" "ERA_MAP e = Some b" by blast
  from b1 inv_Seq obtain r2 g2 where
    a2: "(r2, g2) \<in> set (rmatch (Grp (Rep kanji_num_chars 1 None)) (r1, g1))"
    and b2: "(rest, g) \<in> set (rmatch
     (Seq (Lit [c_nen])
     (Seq (Grp (Rep kanji_num_chars 1 None))
     (Seq (Lit [c_gatsu]) day_group))) (r2, g2))"
    by (metis surj_pair)
  from inv_Grp_Rep [OF a2] obtain y where
    y: "r1 = y @ r2" "g2 = g1 @ [y]" "list_all kanji_num_chars y" "1 \<le> length y" by blast
  from b2 inv_Seq obtain r3 g3 where
    a3: "(r3, g3) \<in> set (rmatch (Lit [c_nen]) (r2, g2))"
    and b3: "(rest, g) \<in> set (rmatch
     (Seq (Grp (Rep kanji_num_chars 1 None))
     (Seq (Lit [c_gatsu]) day_group)) (r3, g3))"
    by (metis surj_pair)
  from inv_Lit [OF a3] have n: "r2 = [c_nen] @ r3" "g3 = g2" by simp_all
  from b3 inv_Seq obtain r4 g4 where
    a4: "(r4, g4) \<in> set (rmatch (Grp (Rep kanji_num_chars 1 None)) (r3, g3))"
    and b4: "(rest, g) \<in> set (rmatch (Seq (Lit [c_gatsu]) day_group) (r4, g4))"
    by (metis surj_pair)
  from inv_Grp_Rep [OF a4] obtain m where
    m: "r3 = m @ r4" "g4 = g3 @ [m]" "list_all kanji_num_chars m" "1 \<le> length m" by blast
  from b4 inv_Seq obtain r5 g5 where
    a5: "(r5, g5) \<in> set (rmatch (Lit [c_gatsu]) (r4, g4))"
    and b5: "(rest, g) \<in> set (rmatch day_group (r5, g5))"
    by (metis surj_pair)
  from inv_Lit [OF a5] have k: "r4 = [c_gatsu] @ r5" "g5 = g4" by simp_all
  from day_group_inv [OF b5] obtain dd where
    dd: "r5 = dd @ rest" "g = g5 @ [dd]" "day_token dd" by blast
  have "s = e @ y @ [c_nen] @ m @ [c_gatsu] @ dd @ rest"
    using e(1) y(1) n(1) m(1) k(1) dd(1) by simp
  moreover have "g = [e, y, m, dd]" using e(2) y(2) n(2) m(2) k(2) dd(2) by simp
  moreover have "y \<noteq> []" "m \<noteq> []" using y(4) m(4) by auto
  ultimately show ?thesis using e(3) y(3) m(3) dd(3) by blast
qed

lemma era_repl_exact:
  assumes "ERA_MAP e = Some b"
  shows "era_repl [e, y, m, dd] =
     (case normalize_number y of
        Inl x \<Rightarrow> Inl x
      | Inr vy \<Rightarrow>
          (case normalize_number m of
             Inl x \<Rightarrow> Inl x
           | Inr vm \<Rightarrow>
               (case (if dd = s_matsujitsu then monthrange_ndays (b + vy - 1) vm
                      else normalize_number (butlast dd)) of
                  Inl x \<Rightarrow> Inl x
                | Inr vd \<Rightarrow> format_date (b + vy - 1) vm vd)))"
  using assms ERA_MAP_names [OF assms]
  by (simp add: era_repl_def make_repl_def Let_def split: sum.splits)

lemma era_repl_emitted:
  assumes e: "ERA_MAP e = Some b" and r: "era_repl [e, y, m, dd] = Inr out"
  shows "\<exists>vy vm vd. normalize_number y = Inr vy \<and> normalize_number m = Inr vm
           \<and> (if dd = s_matsujitsu
               then 1 \<le> vm \<and> vm \<le> 12 \<and> vd = spec_last_day (b + vy - 1) vm
               else normalize_number (butlast dd) = Inr vd)
           \<and> format_date (b + vy - 1) vm vd = Inr out"
proof -
  note x = r [unfolded era_repl_exact [OF e]]
  from x obtain vy where vy: "normalize_number y = Inr vy"
    by (cases "normalize_number y") simp_all
  from x vy obtain vm where vm: "normalize_number m = Inr vm"
    by (cases "normalize_number m") simp_all
  show ?thesis
  proof (cases "dd = s_matsujitsu")
    case True
    have rng: "1 \<le> vm \<and> vm \<le> 12"
    proof (rule ccontr)
      assume "\<not> (1 \<le> vm \<and> vm \<le> 12)"
      then have "monthrange_ndays (b + vy - 1) vm = Inl (IllegalMonthError vm)"
        by (simp add: monthrange_ndays_def)
      with x vy vm True show False by simp
    qed
    then have "monthrange_ndays (b + vy - 1) vm = Inr (spec_last_day (b + vy - 1) vm)"
      by (simp add: monthrange_spec)
    with x vy vm True
    have "format_date (b + vy - 1) vm (spec_last_day (b + vy - 1) vm) = Inr out" by simp
    with vy vm True rng show ?thesis by auto
  next
    case False
    with x vy vm obtain vd where vd: "normalize_number (butlast dd) = Inr vd"
      by (cases "normalize_number (butlast dd)") simp_all
    with x vy vm False have "format_date (b + vy - 1) vm vd = Inr out" by simp
    with vy vm vd False show ?thesis by auto
  qed
qed

lemma era_pass_at_match:
  assumes "\<forall>k<length pre. re_match era_pattern (drop k (pre @ s)) = None"
    and "re_match era_pattern s = Some (rest, g)"
  shows "\<exists>e b y m dd. s = e @ y @ [c_nen] @ m @ [c_gatsu] @ dd @ rest \<and> g = [e, y, m, dd]
           \<and> ERA_MAP e = Some b
           \<and> y \<noteq> [] \<and> list_all kanji_num_chars y \<and> m \<noteq> [] \<and> list_all kanji_num_chars m
           \<and> day_token dd
           \<and> re_sub era_pattern era_repl (pre @ s) =
               (case era_repl [e, y, m, dd] of
                  Inl x \<Rightarrow> Inl x
                | Inr out \<Rightarrow>
                    (case re_sub era_pattern era_repl rest of
                       Inl x \<Rightarrow> Inl x
                     | Inr t \<Rightarrow> Inr (pre @ out @ t)))"
proof -
  from era_inv [OF re_match_mem [OF assms(2)]] obtain e b y m dd where
    i: "s = e @ y @ [c_nen] @ m @ [c_gatsu] @ dd @ rest" "g = [e, y, m, dd]"
       "ERA_MAP e = Some b" "y \<noteq> []" "list_all kanji_num_chars y" "m \<noteq> []"
       "list_all kanji_num_chars m" "day_token dd"
    by blast
  have l: "length rest < length s" using i(1) by simp
  have "re_sub era_pattern era_repl (pre @ s) =
               (case era_repl [e, y, m, dd] of
                  Inl x \<Rightarrow> Inl x
                | Inr out \<Rightarrow>
                    (case re_sub era_pattern era_repl rest of
                       Inl x \<Rightarrow> Inl x
                     | Inr t \<Rightarrow> Inr (pre @ out @ t)))"
    using re_sub_prefix [OF assms(1), of era_repl] re_sub_hit [OF assms(2) l, of era_repl] i(2)
    by (simp split: sum.splits)
  with i show ?thesis by blast
qed

lemma replace_dates_era:
  assumes e: "ERA_MAP e = Some b"
    and y: "y \<noteq> []" "list_all kanji_num_chars y"
    and m: "m \<noteq> []" "list_all kanji_num_chars m"
    and d: "day_token dd"
  shows "replace_dates (e @ y @ [c_nen] @ m @ [c_gatsu] @ dd) = era_repl [e, y, m, dd]"
proof -
  let ?x = "e @ y @ [c_nen] @ m @ [c_gatsu] @ dd"
  have ne: "?x \<noteq> []" by simp
  have em: "rmatch era_pattern ([], []) = []" by (simp add: era_pattern_def)
  from re_sub_whole [OF era_match [OF e y m d] ne em]
  have p1: "re_sub era_pattern era_repl ?x = era_repl [e, y, m, dd]" .
  show ?thesis
  proof (cases "era_repl [e, y, m, dd]")
    case (Inl x)
    then show ?thesis unfolding replace_dates_def p1 by simp
  next
    case (Inr out)
    from era_repl_emitted [OF e Inr] obtain vy vm vd where
      "format_date (b + vy - 1) vm vd = Inr out" by blast
    note c = out_char_not_special [OF canonical_chars [OF this]]
    have p2: "re_sub seireki_pattern seireki_repl out = Inr out"
      using c by (intro seireki_no_nen) simp
    have p3: "re_sub abbr_pattern abbr_repl out = Inr out"
      using c by (intro abbr_no_sep) simp_all
    have p4: "re_sub delim_pattern delim_repl out = Inr out"
      using c by (intro delim_no_sep) simp_all
    show ?thesis
      unfolding replace_dates_def p1 Inr sum.case p2 p3 p4 ..
  qed
qed

lemma kanji_day_token:
  "d \<noteq> [] \<Longrightarrow> list_all kanji_num_chars d \<Longrightarrow>
     day_token (d @ [c_nichi]) \<and> d @ [c_nichi] \<noteq> s_matsujitsu"
proof -
  assume d: "d \<noteq> []" "list_all kanji_num_chars d"
  obtain a d' where dd: "d = a # d'" using d(1) by (cases d) auto
  then have "kanji_num_chars a" using d(2) by simp
  then have "a \<noteq> 0x672B" using not_kanji_facts(4) by auto
  then have "d @ [c_nichi] \<noteq> s_matsujitsu" by (simp add: dd s_matsujitsu_def)
  with d show ?thesis by (simp add: day_token_def)
qed

lemma replace_dates_era_numbered:
  assumes e: "ERA_MAP e = Some b"
    and y: "y \<noteq> []" "list_all kanji_num_chars y" "length y \<le> int_max_str_digits"
    and m: "m \<noteq> []" "list_all kanji_num_chars m" "length m \<le> int_max_str_digits"
    and d: "d \<noteq> []" "list_all kanji_num_chars d" "length d \<le> int_max_str_digits"
  shows "\<exists>vy vm vd. normalize_number y = Inr vy \<and> normalize_number m = Inr vm
           \<and> normalize_number d = Inr vd
           \<and> replace_dates (e @ y @ [c_nen] @ m @ [c_gatsu] @ d @ [c_nichi]) =
               format_date (b + vy - 1) vm vd"
proof -
  obtain vy where vy: "normalize_number y = Inr vy"
    using normalize_number_kanji [OF y(2,3)] by blast
  obtain vm where vm: "normalize_number m = Inr vm"
    using normalize_number_kanji [OF m(2,3)] by blast
  obtain vd where vd: "normalize_number d = Inr vd"
    using normalize_number_kanji [OF d(2,3)] by blast
  note k = kanji_day_token [OF d(1,2)]
  have "replace_dates (e @ y @ [c_nen] @ m @ [c_gatsu] @ (d @ [c_nichi])) =
      era_repl [e, y, m, d @ [c_nichi]]"
    using k by (intro replace_dates_era [OF e y(1,2) m(1,2)]) simp
  also have "\<dots> = format_date (b + vy - 1) vm vd"
    using k vy vm vd by (simp add: era_repl_exact [OF e])
  finally show ?thesis using vy vm vd by auto
qed
section \<open>The claims\<close>

text \<open>
  Claim C1. The specification gives \<open>rewrite("R5.3.2") = "2023-03-02"\<close>. In the source the
  fourth group of the era-letter pattern is the bare day, without the day character that the
  era-name and Gregorian patterns include in theirs, and \<open>_make_repl\<close> drops the last
  character of the day group in every case. So the last digit of the day is lost:
  \<open>R5.3.2\<close> becomes \<open>2023-03-00\<close> and \<open>R5.3.12\<close> becomes \<open>2023-03-01\<close>.
\<close>

theorem C1_abbr_day_loses_last_digit:
  "normalize [0x52, 0x35, 0x2E, 0x33, 0x2E, 0x32]
     = Inr [0x32, 0x30, 0x32, 0x33, 0x2D, 0x30, 0x33, 0x2D, 0x30, 0x30]
   \<and> normalize [0x52, 0x35, 0x2E, 0x33, 0x2E, 0x31, 0x32]
     = Inr [0x32, 0x30, 0x32, 0x33, 0x2D, 0x30, 0x33, 0x2D, 0x30, 0x31]"
  by (simp add: run)

text \<open>
  Claim C2. The specification calls \<open>rewrite\<close> total. On the era-name date with year five
  of Reiwa, month thirteen and the end-of-month token, \<open>calendar.monthrange\<close> raises
  \<open>IllegalMonthError\<close> and nothing catches it; the same month with a numbered day is
  emitted unchecked as \<open>2023-13-01\<close>.
\<close>

theorem C2_end_of_month_raises:
  "normalize [0x4EE4, 0x548C, 0x4E94, 0x5E74, 0x5341, 0x4E09, 0x6708, 0x672B, 0x65E5]
     = Inl (IllegalMonthError 13)
   \<and> normalize [0x4EE4, 0x548C, 0x4E94, 0x5E74, 0x5341, 0x4E09, 0x6708, 0x4E00, 0x65E5]
     = Inr [0x32, 0x30, 0x32, 0x33, 0x2D, 0x31, 0x33, 0x2D, 0x30, 0x31]"
  by (simp add: run)

text \<open>
  Claim C3. The specification says \<open>normalize_number\<close> never raises. The digit-string branch
  of \<open>kanji_to_int\<close> keeps every character that passes \<open>str.isdigit\<close> and hands the
  result to \<open>int()\<close>; SUPERSCRIPT TWO (\<open>0xB2\<close>) passes \<open>isdigit\<close> and is rejected by
  \<open>int()\<close>, which raises \<open>ValueError\<close>.
\<close>

theorem C3_superscript_digit_raises:
  "normalize_number [0xB2] = Inl ValueError"
  by (simp add: nums dig_tab)



text \<open>
  Claim C10. In the units branch only kanji digits and units count: deleting every other
  character changes neither \<open>parse_small\<close> nor \<open>kanji_to_int\<close> on a string with a
  unit. An ASCII digit is such a character, so an ASCII digit followed by a large unit is
  worth the unit alone: \<open>kanji_to_int\<close> of the digit 5 and the ten-thousand character is
  10000, not 50000.
\<close>

theorem C10_units_branch_ignores_other_characters:
  "(\<forall>s. parse_small (filter small_counted s) = parse_small s)
   \<and> (\<forall>s. has_unit s \<longrightarrow> kanji_to_int (filter counted s) = kanji_to_int s)
   \<and> (\<forall>d. 0x30 \<le> d \<and> d \<le> 0x39 \<longrightarrow> \<not> small_counted d \<and> \<not> counted d)
   \<and> (\<forall>d u v. 0x30 \<le> d \<and> d \<le> 0x39 \<and> UNIT_LARGE u = Some v \<longrightarrow> kanji_to_int [d, u] = Inr v)
   \<and> kanji_to_int [0x35, 0x4E07] = Inr 10000"
proof (intro conjI allI impI)
  fix s show "parse_small (filter small_counted s) = parse_small s"
    by (simp add: parse_small_def parse_small_loop_small_counted)
next
  fix s assume "has_unit s"
  then show "kanji_to_int (filter counted s) = kanji_to_int s" by (rule kanji_to_int_uncounted)
next
  fix d :: cp assume "0x30 \<le> d \<and> d \<le> 0x39"
  then show "\<not> small_counted d"
    using ascii_digit_uncounted [of d] by (simp add: counted_def small_counted_def)
next
  fix d :: cp assume "0x30 \<le> d \<and> d \<le> 0x39"
  then show "\<not> counted d" using ascii_digit_uncounted [of d] by simp
next
  fix d u :: cp and v assume "0x30 \<le> d \<and> d \<le> 0x39 \<and> UNIT_LARGE u = Some v"
  then show "kanji_to_int [d, u] = Inr v"
    using ascii_digit_uncounted [of d] kanji_to_int_uncounted_large [of d u v] by simp
next
  show "kanji_to_int [0x35, 0x4E07] = Inr 10000"
    using kanji_to_int_uncounted_large [of "0x35" "0x4E07" 10000] ascii_digit_uncounted [of "0x35"]
    by (simp add: UNIT_LARGE_def)
qed

theorem C10_witness:
  "has_unit [0x35, 0x4E07]
   \<and> kanji_to_int (filter counted [0x35, 0x4E07]) = kanji_to_int [0x35, 0x4E07]
   \<and> kanji_to_int [0x35, 0x4E07] = Inr 10000"
proof -
  have h: "has_unit [0x35, 0x4E07]" by (simp add: has_unit_def UNIT_LARGE_def)
  from C10_units_branch_ignores_other_characters
  have a: "\<forall>s. has_unit s \<longrightarrow> kanji_to_int (filter counted s) = kanji_to_int s"
    and b: "kanji_to_int [0x35, 0x4E07] = Inr 10000" by blast+
  from a h have "kanji_to_int (filter counted [0x35, 0x4E07]) = kanji_to_int [0x35, 0x4E07]"
    by blast
  with h b show ?thesis by blast
qed

text \<open>
  Claim C5. With the end-of-month token as the day and a month from 1 to 12, the replacement
  is the formatted date of the resolved year, the month and the last day of that month: the
  library's table and leap-year test agree with \<open>spec_last_day\<close>, the Gregorian rule as
  the specification words it. The resolved year is the parsed year, or the era base plus the
  parsed year minus 1. The format returns the canonical text unless one of its numbers has
  more digits than the interpreter converts. The end of February is the 29th in 2024 and
  the 28th in 1900. Conversely, whenever a replacement with the end-of-month token is
  emitted at all, its month is from 1 to 12 and its day is that last day.
\<close>

theorem C5_end_of_month_day:
  "(\<forall>year month. 1 \<le> month \<and> month \<le> 12 \<longrightarrow>
       monthrange_ndays year month = Inr (spec_last_day year month))
   \<and> (\<forall>era_year month y0 m. normalize_number era_year = Inr y0 \<and> normalize_number month = Inr m
         \<and> 1 \<le> m \<and> m \<le> 12 \<longrightarrow>
       make_repl era_year month s_matsujitsu None = format_date y0 m (spec_last_day y0 m))
   \<and> (\<forall>era_year month y0 m b. normalize_number era_year = Inr y0 \<and> normalize_number month = Inr m
         \<and> 1 \<le> m \<and> m \<le> 12 \<and> b \<noteq> 0 \<longrightarrow>
       make_repl era_year month s_matsujitsu (Some b) =
         format_date (b + y0 - 1) m (spec_last_day (b + y0 - 1) m))
   \<and> (\<forall>y m d. format_date y m d =
         (if num_digits y \<le> int_max_str_digits \<and> num_digits m \<le> int_max_str_digits
             \<and> num_digits d \<le> int_max_str_digits
          then Inr (canonical_date y m d) else Inl ValueError))
   \<and> normalize [0x4E8C, 0x3007, 0x4E8C, 0x56DB, 0x5E74, 0x4E8C, 0x6708, 0x672B, 0x65E5]
       = Inr [0x32, 0x30, 0x32, 0x34, 0x2D, 0x30, 0x32, 0x2D, 0x32, 0x39]
   \<and> normalize [0x4E00, 0x4E5D, 0x3007, 0x3007, 0x5E74, 0x4E8C, 0x6708, 0x672B, 0x65E5]
       = Inr [0x31, 0x39, 0x30, 0x30, 0x2D, 0x30, 0x32, 0x2D, 0x32, 0x38]
   \<and> (\<forall>era_year month era_base out.
        make_repl era_year month s_matsujitsu era_base = Inr out \<longrightarrow>
        (\<exists>y0 m. normalize_number era_year = Inr y0 \<and> normalize_number month = Inr m
           \<and> 1 \<le> m \<and> m \<le> 12
           \<and> out = (let year = (case era_base of None \<Rightarrow> y0
                                  | Some b \<Rightarrow> if b \<noteq> 0 then b + y0 - 1 else y0)
                    in canonical_date year m (spec_last_day year m))))"
proof (intro conjI allI impI)
  fix year month :: int assume "1 \<le> month \<and> month \<le> 12"
  then show "monthrange_ndays year month = Inr (spec_last_day year month)"
    by (simp add: monthrange_spec)
next
  fix era_year month y0 m
  assume "normalize_number era_year = Inr y0 \<and> normalize_number month = Inr m
         \<and> 1 \<le> m \<and> m \<le> 12"
  then show "make_repl era_year month s_matsujitsu None
      = format_date y0 m (spec_last_day y0 m)"
    using make_repl_matsujitsu [of era_year y0 month m None] by simp
next
  fix era_year month y0 m and b :: int
  assume "normalize_number era_year = Inr y0 \<and> normalize_number month = Inr m
         \<and> 1 \<le> m \<and> m \<le> 12 \<and> b \<noteq> 0"
  then show "make_repl era_year month s_matsujitsu (Some b) =
         format_date (b + y0 - 1) m (spec_last_day (b + y0 - 1) m)"
    using make_repl_matsujitsu [of era_year y0 month m "Some b"] by (simp add: Let_def)
next
  fix y m d
  show "format_date y m d =
         (if num_digits y \<le> int_max_str_digits \<and> num_digits m \<le> int_max_str_digits
             \<and> num_digits d \<le> int_max_str_digits
          then Inr (canonical_date y m d) else Inl ValueError)"
    by (rule format_date_cases)
next
  show "normalize [0x4E8C, 0x3007, 0x4E8C, 0x56DB, 0x5E74, 0x4E8C, 0x6708, 0x672B, 0x65E5]
       = Inr [0x32, 0x30, 0x32, 0x34, 0x2D, 0x30, 0x32, 0x2D, 0x32, 0x39]"
    by (simp add: run)
  show "normalize [0x4E00, 0x4E5D, 0x3007, 0x3007, 0x5E74, 0x4E8C, 0x6708, 0x672B, 0x65E5]
       = Inr [0x31, 0x39, 0x30, 0x30, 0x2D, 0x30, 0x32, 0x2D, 0x32, 0x38]"
    by (simp add: run)
next
  fix era_year month era_base out
  assume "make_repl era_year month s_matsujitsu era_base = Inr out"
  from make_repl_matsujitsu_emitted [OF this] obtain y0 m where
    a: "normalize_number era_year = Inr y0" "normalize_number month = Inr m"
       "1 \<le> m" "m \<le> 12"
    and f: "(let year = (case era_base of None \<Rightarrow> y0
                                  | Some b \<Rightarrow> if b \<noteq> 0 then b + y0 - 1 else y0)
              in format_date year m (spec_last_day year m)) = Inr out"
    by blast
  from f have "out = (let year = (case era_base of None \<Rightarrow> y0
                                  | Some b \<Rightarrow> if b \<noteq> 0 then b + y0 - 1 else y0)
                    in canonical_date year m (spec_last_day year m))"
    by (simp add: Let_def format_date_text)
  with a show "\<exists>y0 m. normalize_number era_year = Inr y0 \<and> normalize_number month = Inr m
           \<and> 1 \<le> m \<and> m \<le> 12
           \<and> out = (let year = (case era_base of None \<Rightarrow> y0
                                  | Some b \<Rightarrow> if b \<noteq> 0 then b + y0 - 1 else y0)
                    in canonical_date year m (spec_last_day year m))"
    by blast
qed

theorem C5_witness:
  "normalize_number [0x4E8C, 0x3007, 0x4E8C, 0x56DB] = Inr 2024
   \<and> normalize_number [0x4E8C] = Inr 2 \<and> (1::int) \<le> 2 \<and> (2::int) \<le> 12
   \<and> spec_last_day 2024 2 = 29
   \<and> make_repl [0x4E8C, 0x3007, 0x4E8C, 0x56DB] [0x4E8C] s_matsujitsu None
        = Inr [0x32, 0x30, 0x32, 0x34, 0x2D, 0x30, 0x32, 0x2D, 0x32, 0x39]"
proof -
  have y: "normalize_number [0x4E8C, 0x3007, 0x4E8C, 0x56DB] = Inr 2024" by (simp add: nums dig_tab)
  have m: "normalize_number [0x4E8C] = Inr 2" by (simp add: nums dig_tab)
  have d: "spec_last_day 2024 2 = 29" by (simp add: spec_last_day_def)
  have b: "(1::int) \<le> 2 \<and> (2::int) \<le> 12" by simp
  from conjunct1 [OF conjunct2 [OF C5_end_of_month_day]] y m b
  have "make_repl [0x4E8C, 0x3007, 0x4E8C, 0x56DB] [0x4E8C] s_matsujitsu None =
         format_date 2024 2 (spec_last_day 2024 2)"
    by blast
  with y m d show ?thesis
    by (simp add: format_date_def fmt_0d_def num_digits_def zero_pad_def zfill_def
          int_max_str_digits_def str_nat.simps)
qed

text \<open>
  Claim C7, as stated, fails at the string made of the one character \<open>0x5143\<close>, the
  first-year token: it holds no unit character, the digit table gives it no digit, so the
  digit-string reading is 0, and \<open>normalize_number\<close> returns 1 by its first test.
\<close>

theorem C7_counterexample:
  "\<not> has_unit [0x5143] \<and> normalize_number [0x5143] = Inr 1 \<and> spec_concat_value [0x5143] = 0
   \<and> normalize_number [0x5143] \<noteq> Inr (spec_concat_value [0x5143])"
  by (simp add: has_unit_def UNIT_SMALL_def UNIT_LARGE_def normalize_number_def
        spec_concat_value_def spec_digit_def KANJI_NUM_def dec_tab)

text \<open>
  Claim C7, amended. For every string other than the first-year token that holds no unit
  character, whose characters accepted by \<open>isdigit\<close> are all decimal and which holds no
  more digits than the interpreter converts (4300), \<open>normalize_number\<close> returns the
  digit-string reading \<open>spec_concat_value\<close>: each character through the digit table, the
  digits found read as one decimal number. With a unit character in the string the result
  is that of the units branch. The two-kanji string for 23 and the four-kanji string for
  2023 convert to 23 and 2023.
\<close>

theorem C7_digit_string_mode:
  "(\<forall>s. s \<noteq> [0x5143] \<and> \<not> has_unit s \<and> (\<forall>ch\<in>set s. isdigit ch \<longrightarrow> isdecimal ch)
        \<and> length (List.map_filter spec_digit s) \<le> int_max_str_digits \<longrightarrow>
        normalize_number s = Inr (spec_concat_value s))
   \<and> (\<forall>s. has_unit s \<longrightarrow>
        normalize_number s =
          (case large_loop s (0, []) of (tot, current) \<Rightarrow> Inr (tot + parse_small current)))
   \<and> normalize_number [0x4E8C, 0x4E09] = Inr 23
   \<and> normalize_number [0x4E8C, 0x3007, 0x4E8C, 0x4E09] = Inr 2023"
proof (intro conjI allI impI)
  fix s
  assume "s \<noteq> [0x5143] \<and> \<not> has_unit s \<and> (\<forall>ch\<in>set s. isdigit ch \<longrightarrow> isdecimal ch)
        \<and> length (List.map_filter spec_digit s) \<le> int_max_str_digits"
  then show "normalize_number s = Inr (spec_concat_value s)"
    using normalize_number_digits [of s] by blast
next
  fix s assume "has_unit s"
  then show "normalize_number s =
      (case large_loop s (0, []) of (tot, current) \<Rightarrow> Inr (tot + parse_small current))"
    by (rule normalize_number_units)
next
  show "normalize_number [0x4E8C, 0x4E09] = Inr 23" by (simp add: nums dig_tab)
  show "normalize_number [0x4E8C, 0x3007, 0x4E8C, 0x4E09] = Inr 2023" by (simp add: nums dig_tab)
qed

theorem C7_witness:
  "[0x4E8C, 0x3007, 0x4E8C, 0x4E09] \<noteq> [0x5143 :: nat]
   \<and> \<not> has_unit [0x4E8C, 0x3007, 0x4E8C, 0x4E09]
   \<and> list_all (\<lambda>ch. \<not> isdigit ch) [0x4E8C, 0x3007, 0x4E8C, 0x4E09]
   \<and> length (List.map_filter spec_digit [0x4E8C, 0x3007, 0x4E8C, 0x4E09]) = 4
   \<and> spec_concat_value [0x4E8C, 0x3007, 0x4E8C, 0x4E09] = 2023
   \<and> normalize_number [0x4E8C, 0x3007, 0x4E8C, 0x4E09] = Inr 2023"
proof -
  let ?s = "[0x4E8C, 0x3007, 0x4E8C, 0x4E09] :: ustr"
  have 1: "?s \<noteq> [0x5143]" by simp
  have 2: "\<not> has_unit ?s" by (simp add: has_unit_def UNIT_SMALL_def UNIT_LARGE_def)
  have 3: "list_all (\<lambda>ch. \<not> isdigit ch) ?s" by (simp add: dig_tab)
  then have h3: "\<forall>ch\<in>set ?s. isdigit ch \<longrightarrow> isdecimal ch" by simp
  have 5: "length (List.map_filter spec_digit ?s) = 4"
    by (simp add: spec_digit_def KANJI_NUM_def)
  then have h5: "length (List.map_filter spec_digit ?s) \<le> int_max_str_digits"
    by (simp add: int_max_str_digits_def)
  have 4: "spec_concat_value ?s = 2023"
    by (simp add: spec_concat_value_def spec_digit_def KANJI_NUM_def)
  from C7_digit_string_mode 1 2 h3 h5 have "normalize_number ?s = Inr (spec_concat_value ?s)"
    by blast
  with 1 2 3 4 5 show ?thesis by simp
qed

text \<open>
  Claim C8. A date in canonical form, that is, a text the format \<open>%04d-%02d-%02d\<close>
  produces, is returned unchanged by \<open>normalize\<close>, so normalising its result again
  gives the same result. More generally no pattern matches a text without the year
  character, the full stop and the slash: \<open>normalize\<close> only folds its full-width
  digits, and the folded text is a fixed point.
\<close>

theorem C8_canonical_dates_are_fixed:
  "(\<forall>y m d. normalize (canonical_date y m d) = Inr (canonical_date y m d))
   \<and> (\<forall>y m d. case normalize (canonical_date y m d) of
         Inl e \<Rightarrow> False
       | Inr t \<Rightarrow> normalize t = Inr t)
   \<and> (\<forall>x. c_nen \<notin> set x \<and> 0x2E \<notin> set x \<and> 0x2F \<notin> set x \<longrightarrow>
         (\<exists>t. normalize x = Inr t \<and> normalize t = Inr t))"
proof (intro conjI allI impI)
  fix y m d
  show "normalize (canonical_date y m d) = Inr (canonical_date y m d)"
    by (rule normalize_canonical)
  then show "case normalize (canonical_date y m d) of
         Inl e \<Rightarrow> False
       | Inr t \<Rightarrow> normalize t = Inr t"
    by simp
next
  fix x assume "c_nen \<notin> set x \<and> 0x2E \<notin> set x \<and> 0x2F \<notin> set x"
  then show "\<exists>t. normalize x = Inr t \<and> normalize t = Inr t"
    using normalize_twice [of x] by blast
qed

theorem C8_witness:
  "canonical_date 2023 3 2 = [0x32, 0x30, 0x32, 0x33, 0x2D, 0x30, 0x33, 0x2D, 0x30, 0x32]
   \<and> normalize [0x32, 0x30, 0x32, 0x33, 0x2D, 0x30, 0x33, 0x2D, 0x30, 0x32]
     = Inr [0x32, 0x30, 0x32, 0x33, 0x2D, 0x30, 0x33, 0x2D, 0x30, 0x32]"
proof -
  have f: "canonical_date 2023 3 2
     = [0x32, 0x30, 0x32, 0x33, 0x2D, 0x30, 0x33, 0x2D, 0x30, 0x32]"
    by (simp add: canonical_date_def zero_pad_def zfill_def str_nat.simps)
  from C8_canonical_dates_are_fixed
  have "normalize (canonical_date 2023 3 2) = Inr (canonical_date 2023 3 2)"
    by blast
  with f show ?thesis by simp
qed

text \<open>
  Claim C9, as stated, fails where two spans that match the pattern overlap: the scan
  is from the left and never goes back into a span it has replaced. In
  \<open>2023/1/2023/1/2\<close> the span \<open>2023/1/2\<close> that starts at the eighth character matches
  the pattern, but the pass replaces \<open>2023/1/20\<close> first and the text becomes
  \<open>2023-01-2023/1/2\<close>, in which that span stands as it was.
\<close>

theorem C9_counterexample:
  "drop 7 [0x32, 0x30, 0x32, 0x33, 0x2F, 0x31, 0x2F, 0x32, 0x30, 0x32, 0x33, 0x2F, 0x31, 0x2F, 0x32]
     = [0x32, 0x30, 0x32, 0x33, 0x2F, 0x31, 0x2F, 0x32]
   \<and> re_match delim_pattern [0x32, 0x30, 0x32, 0x33, 0x2F, 0x31, 0x2F, 0x32]
     = Some ([], [[0x32, 0x30, 0x32, 0x33], [0x31], [0x32]])
   \<and> normalize
       [0x32, 0x30, 0x32, 0x33, 0x2F, 0x31, 0x2F, 0x32, 0x30, 0x32, 0x33, 0x2F, 0x31, 0x2F, 0x32]
     = Inr [0x32, 0x30, 0x32, 0x33, 0x2D, 0x30, 0x31, 0x2D, 0x32, 0x30,
            0x32, 0x33, 0x2F, 0x31, 0x2F, 0x32]
   \<and> drop 8 [0x32, 0x30, 0x32, 0x33, 0x2D, 0x30, 0x31, 0x2D, 0x32, 0x30,
              0x32, 0x33, 0x2F, 0x31, 0x2F, 0x32]
     = [0x32, 0x30, 0x32, 0x33, 0x2F, 0x31, 0x2F, 0x32]"
  by (simp add: run)

text \<open>
  Claim C9, amended. Every span the delimiter pass matches in its scan from the left
  (the first match from a position before which no match starts) is made of four decimal
  digits, a full stop or slash, one or two decimal digits, a full stop or slash and one or
  two decimal digits, and is replaced by the zero-padded hyphenated form of the three
  values, whatever the values: neither month nor day is checked against the calendar, and
  the pass never raises. In particular a text that is exactly such a date is rewritten by
  \<open>normalize\<close> and by \<open>replace_dates\<close> into that form, no earlier pass matching it:
  \<open>2023/3/2\<close> becomes \<open>2023-03-02\<close> and \<open>2023/99/2\<close> becomes \<open>2023-99-02\<close>.
\<close>

theorem C9_delimiter_pass_matches:
  "(\<forall>pre s rest g.
      (\<forall>k<length pre. re_match delim_pattern (drop k (pre @ s)) = None)
      \<and> re_match delim_pattern s = Some (rest, g) \<longrightarrow>
      (\<exists>y s1 m s2 d t. s = y @ [s1] @ m @ [s2] @ d @ rest
           \<and> length y = 4 \<and> list_all isdecimal y
           \<and> (length m = 1 \<or> length m = 2) \<and> list_all isdecimal m
           \<and> (length d = 1 \<or> length d = 2) \<and> list_all isdecimal d
           \<and> (s1 = 0x2E \<or> s1 = 0x2F) \<and> (s2 = 0x2E \<or> s2 = 0x2F)
           \<and> re_sub delim_pattern delim_repl rest = Inr t
           \<and> re_sub delim_pattern delim_repl (pre @ s) =
               Inr (pre @ canonical_date (decimal_value y) (decimal_value m) (decimal_value d)
                    @ t)))
   \<and> (\<forall>x. \<exists>t. re_sub delim_pattern delim_repl x = Inr t)
   \<and> (\<forall>y m d s1 s2.
      length y = 4 \<and> list_all isdecimal y \<and> (length m = 1 \<or> length m = 2) \<and> list_all isdecimal m
      \<and> (length d = 1 \<or> length d = 2) \<and> list_all isdecimal d
      \<and> (s1 = 0x2E \<or> s1 = 0x2F) \<and> (s2 = 0x2E \<or> s2 = 0x2F) \<longrightarrow>
      normalize (y @ [s1] @ m @ [s2] @ d) =
        Inr (canonical_date (decimal_value y) (decimal_value m) (decimal_value d))
      \<and> replace_dates (y @ [s1] @ m @ [s2] @ d) =
        Inr (canonical_date (decimal_value y) (decimal_value m) (decimal_value d)))
   \<and> normalize [0x32, 0x30, 0x32, 0x33, 0x2F, 0x33, 0x2F, 0x32]
       = Inr [0x32, 0x30, 0x32, 0x33, 0x2D, 0x30, 0x33, 0x2D, 0x30, 0x32]
   \<and> normalize [0x32, 0x30, 0x32, 0x33, 0x2F, 0x39, 0x39, 0x2F, 0x32]
       = Inr [0x32, 0x30, 0x32, 0x33, 0x2D, 0x39, 0x39, 0x2D, 0x30, 0x32]"
proof (intro conjI allI impI)
  fix pre s rest g
  assume "(\<forall>k<length pre. re_match delim_pattern (drop k (pre @ s)) = None)
      \<and> re_match delim_pattern s = Some (rest, g)"
  then show "\<exists>y s1 m s2 d t. s = y @ [s1] @ m @ [s2] @ d @ rest
           \<and> length y = 4 \<and> list_all isdecimal y
           \<and> (length m = 1 \<or> length m = 2) \<and> list_all isdecimal m
           \<and> (length d = 1 \<or> length d = 2) \<and> list_all isdecimal d
           \<and> (s1 = 0x2E \<or> s1 = 0x2F) \<and> (s2 = 0x2E \<or> s2 = 0x2F)
           \<and> re_sub delim_pattern delim_repl rest = Inr t
           \<and> re_sub delim_pattern delim_repl (pre @ s) =
               Inr (pre @ canonical_date (decimal_value y) (decimal_value m) (decimal_value d)
                    @ t)"
    using delim_pass_at_match [of pre s rest g] by blast
next
  fix x show "\<exists>t. re_sub delim_pattern delim_repl x = Inr t" by (rule delim_pass_total)
next
  fix y m d :: ustr and s1 s2 :: cp
  assume a: "length y = 4 \<and> list_all isdecimal y \<and> (length m = 1 \<or> length m = 2)
      \<and> list_all isdecimal m \<and> (length d = 1 \<or> length d = 2) \<and> list_all isdecimal d
      \<and> (s1 = 0x2E \<or> s1 = 0x2F) \<and> (s2 = 0x2E \<or> s2 = 0x2F)"
  show "normalize (y @ [s1] @ m @ [s2] @ d) =
        Inr (canonical_date (decimal_value y) (decimal_value m) (decimal_value d))"
    using a by (intro normalize_delim) blast+
  show "replace_dates (y @ [s1] @ m @ [s2] @ d) =
        Inr (canonical_date (decimal_value y) (decimal_value m) (decimal_value d))"
    using a by (intro replace_dates_delim) blast+
next
  have d: "list_all isdecimal [0x32, 0x30, 0x32, 0x33]" "list_all isdecimal [0x33]"
    "list_all isdecimal [0x32]" "list_all isdecimal [0x39, 0x39]"
    by (simp_all add: dec_tab)
  have v: "decimal_value [0x32, 0x30, 0x32, 0x33] = 2023" "decimal_value [0x33] = 3"
    "decimal_value [0x32] = 2" "decimal_value [0x39, 0x39] = 99"
    by (simp_all add: decimal_value_def decimal_val_def dec_tab)
  show "normalize [0x32, 0x30, 0x32, 0x33, 0x2F, 0x33, 0x2F, 0x32]
       = Inr [0x32, 0x30, 0x32, 0x33, 0x2D, 0x30, 0x33, 0x2D, 0x30, 0x32]"
    using normalize_delim [of "[0x32, 0x30, 0x32, 0x33]" "[0x33]" "[0x32]" "0x2F" "0x2F"] d v
    by (simp add: canonical_date_def zero_pad_def zfill_def str_nat.simps)
  show "normalize [0x32, 0x30, 0x32, 0x33, 0x2F, 0x39, 0x39, 0x2F, 0x32]
       = Inr [0x32, 0x30, 0x32, 0x33, 0x2D, 0x39, 0x39, 0x2D, 0x30, 0x32]"
    using normalize_delim [of "[0x32, 0x30, 0x32, 0x33]" "[0x39, 0x39]" "[0x32]" "0x2F" "0x2F"] d v
    by (simp add: canonical_date_def zero_pad_def zfill_def str_nat.simps)
qed

theorem C9_witness:
  "length [0x32, 0x30, 0x32, 0x33 :: nat] = 4 \<and> list_all isdecimal [0x32, 0x30, 0x32, 0x33]
   \<and> list_all isdecimal [0x31, 0x33] \<and> list_all isdecimal [0x34, 0x35]
   \<and> normalize [0x32, 0x30, 0x32, 0x33, 0x2E, 0x31, 0x33, 0x2F, 0x34, 0x35]
       = Inr [0x32, 0x30, 0x32, 0x33, 0x2D, 0x31, 0x33, 0x2D, 0x34, 0x35]"
proof -
  have d: "list_all isdecimal [0x32, 0x30, 0x32, 0x33]" "list_all isdecimal [0x31, 0x33]"
    "list_all isdecimal [0x34, 0x35]"
    by (simp_all add: dec_tab)
  have v: "decimal_value [0x32, 0x30, 0x32, 0x33] = 2023" "decimal_value [0x31, 0x33] = 13"
    "decimal_value [0x34, 0x35] = 45"
    by (simp_all add: decimal_value_def decimal_val_def dec_tab)
  from C9_delimiter_pass_matches
  have "length [0x32, 0x30, 0x32, 0x33 :: nat] = 4 \<and> list_all isdecimal [0x32, 0x30, 0x32, 0x33]
      \<and> (length [0x31, 0x33 :: nat] = 1 \<or> length [0x31, 0x33 :: nat] = 2)
      \<and> list_all isdecimal [0x31, 0x33]
      \<and> (length [0x34, 0x35 :: nat] = 1 \<or> length [0x34, 0x35 :: nat] = 2)
      \<and> list_all isdecimal [0x34, 0x35]
      \<and> ((0x2E :: nat) = 0x2E \<or> (0x2E :: nat) = 0x2F)
      \<and> ((0x2F :: nat) = 0x2E \<or> (0x2F :: nat) = 0x2F) \<longrightarrow>
      normalize ([0x32, 0x30, 0x32, 0x33] @ [0x2E] @ [0x31, 0x33] @ [0x2F] @ [0x34, 0x35]) =
        Inr (canonical_date (decimal_value [0x32, 0x30, 0x32, 0x33])
               (decimal_value [0x31, 0x33]) (decimal_value [0x34, 0x35]))"
    by blast
  with d v show ?thesis by (simp add: canonical_date_def zero_pad_def zfill_def str_nat.simps)
qed

text \<open>
  Claim C4. Every span the era-name pass matches in its scan from the left, in any text, is
  made of an era name, a year numeral, the year character, a month numeral, the month
  character and a day token (the end-of-month token, or a numeral and the day character);
  the pass puts in its place what \<open>era_repl\<close> returns for these groups or passes on its
  exception. Whenever \<open>era_repl\<close> returns a text, the text is the formatted date whose
  year is the era's base year plus the value of the year numeral minus 1. A text that is
  exactly one such date is rewritten by \<open>replace_dates\<close> into what \<open>era_repl\<close> returns,
  and with a numbered day and numerals no longer than the interpreter converts, the three
  numerals do convert and the result is the format of that year, the month and the day.
  The first-year token has the value 1, so the first year of an era is its base year: the
  first year of Heisei, fourth month, first day gives \<open>1989-04-01\<close>, and the fifth year of
  Reiwa, third month, second day gives \<open>2023-03-02\<close>.
\<close>

theorem C4_era_year_offset:
  "(\<forall>pre s rest g.
      (\<forall>k<length pre. re_match era_pattern (drop k (pre @ s)) = None)
      \<and> re_match era_pattern s = Some (rest, g) \<longrightarrow>
      (\<exists>e b y m dd. s = e @ y @ [c_nen] @ m @ [c_gatsu] @ dd @ rest \<and> g = [e, y, m, dd]
           \<and> ERA_MAP e = Some b
           \<and> y \<noteq> [] \<and> list_all kanji_num_chars y \<and> m \<noteq> [] \<and> list_all kanji_num_chars m
           \<and> day_token dd
           \<and> re_sub era_pattern era_repl (pre @ s) =
               (case era_repl [e, y, m, dd] of
                  Inl x \<Rightarrow> Inl x
                | Inr out \<Rightarrow>
                    (case re_sub era_pattern era_repl rest of
                       Inl x \<Rightarrow> Inl x
                     | Inr t \<Rightarrow> Inr (pre @ out @ t)))))
   \<and> (\<forall>e b y m dd out. ERA_MAP e = Some b \<and> era_repl [e, y, m, dd] = Inr out \<longrightarrow>
        (\<exists>vy vm vd. normalize_number y = Inr vy \<and> normalize_number m = Inr vm
           \<and> (if dd = s_matsujitsu
               then 1 \<le> vm \<and> vm \<le> 12 \<and> vd = spec_last_day (b + vy - 1) vm
               else normalize_number (butlast dd) = Inr vd)
           \<and> format_date (b + vy - 1) vm vd = Inr out
           \<and> out = canonical_date (b + vy - 1) vm vd))
   \<and> (\<forall>e b y m dd. ERA_MAP e = Some b
        \<and> y \<noteq> [] \<and> list_all kanji_num_chars y \<and> m \<noteq> [] \<and> list_all kanji_num_chars m
        \<and> day_token dd \<longrightarrow>
        replace_dates (e @ y @ [c_nen] @ m @ [c_gatsu] @ dd) = era_repl [e, y, m, dd])
   \<and> (\<forall>e b y m d. ERA_MAP e = Some b
        \<and> y \<noteq> [] \<and> list_all kanji_num_chars y \<and> length y \<le> int_max_str_digits
        \<and> m \<noteq> [] \<and> list_all kanji_num_chars m \<and> length m \<le> int_max_str_digits
        \<and> d \<noteq> [] \<and> list_all kanji_num_chars d \<and> length d \<le> int_max_str_digits \<longrightarrow>
        (\<exists>vy vm vd. normalize_number y = Inr vy \<and> normalize_number m = Inr vm
           \<and> normalize_number d = Inr vd
           \<and> replace_dates (e @ y @ [c_nen] @ m @ [c_gatsu] @ d @ [c_nichi]) =
               format_date (b + vy - 1) vm vd))
   \<and> normalize_number [0x5143] = Inr 1
   \<and> normalize [0x5E73, 0x6210, 0x5143, 0x5E74, 0x56DB, 0x6708, 0x4E00, 0x65E5]
       = Inr [0x31, 0x39, 0x38, 0x39, 0x2D, 0x30, 0x34, 0x2D, 0x30, 0x31]
   \<and> normalize [0x4EE4, 0x548C, 0x4E94, 0x5E74, 0x4E09, 0x6708, 0x4E8C, 0x65E5]
       = Inr [0x32, 0x30, 0x32, 0x33, 0x2D, 0x30, 0x33, 0x2D, 0x30, 0x32]"
proof (intro conjI allI impI)
  fix pre s rest g
  assume "(\<forall>k<length pre. re_match era_pattern (drop k (pre @ s)) = None)
      \<and> re_match era_pattern s = Some (rest, g)"
  then show "\<exists>e b y m dd. s = e @ y @ [c_nen] @ m @ [c_gatsu] @ dd @ rest \<and> g = [e, y, m, dd]
           \<and> ERA_MAP e = Some b
           \<and> y \<noteq> [] \<and> list_all kanji_num_chars y \<and> m \<noteq> [] \<and> list_all kanji_num_chars m
           \<and> day_token dd
           \<and> re_sub era_pattern era_repl (pre @ s) =
               (case era_repl [e, y, m, dd] of
                  Inl x \<Rightarrow> Inl x
                | Inr out \<Rightarrow>
                    (case re_sub era_pattern era_repl rest of
                       Inl x \<Rightarrow> Inl x
                     | Inr t \<Rightarrow> Inr (pre @ out @ t)))"
    using era_pass_at_match [of pre s rest g] by blast
next
  fix e :: ustr and b :: int and y m dd out :: ustr
  assume a: "ERA_MAP e = Some b \<and> era_repl [e, y, m, dd] = Inr out"
  then have e: "ERA_MAP e = Some b" and r: "era_repl [e, y, m, dd] = Inr out" by simp_all
  from era_repl_emitted [OF e r] obtain vy vm vd where
    v: "normalize_number y = Inr vy" "normalize_number m = Inr vm"
       "if dd = s_matsujitsu
        then 1 \<le> vm \<and> vm \<le> 12 \<and> vd = spec_last_day (b + vy - 1) vm
        else normalize_number (butlast dd) = Inr vd"
       "format_date (b + vy - 1) vm vd = Inr out"
    by blast
  from format_date_text [OF v(4)] v
  show "\<exists>vy vm vd. normalize_number y = Inr vy \<and> normalize_number m = Inr vm
           \<and> (if dd = s_matsujitsu
               then 1 \<le> vm \<and> vm \<le> 12 \<and> vd = spec_last_day (b + vy - 1) vm
               else normalize_number (butlast dd) = Inr vd)
           \<and> format_date (b + vy - 1) vm vd = Inr out
           \<and> out = canonical_date (b + vy - 1) vm vd"
    by blast
next
  fix e :: ustr and b :: int and y m dd :: ustr
  assume "ERA_MAP e = Some b
        \<and> y \<noteq> [] \<and> list_all kanji_num_chars y \<and> m \<noteq> [] \<and> list_all kanji_num_chars m
        \<and> day_token dd"
  then show "replace_dates (e @ y @ [c_nen] @ m @ [c_gatsu] @ dd) = era_repl [e, y, m, dd]"
    by (intro replace_dates_era [of e b]) blast+
next
  fix e :: ustr and b :: int and y m d :: ustr
  assume "ERA_MAP e = Some b
        \<and> y \<noteq> [] \<and> list_all kanji_num_chars y \<and> length y \<le> int_max_str_digits
        \<and> m \<noteq> [] \<and> list_all kanji_num_chars m \<and> length m \<le> int_max_str_digits
        \<and> d \<noteq> [] \<and> list_all kanji_num_chars d \<and> length d \<le> int_max_str_digits"
  then show "\<exists>vy vm vd. normalize_number y = Inr vy \<and> normalize_number m = Inr vm
           \<and> normalize_number d = Inr vd
           \<and> replace_dates (e @ y @ [c_nen] @ m @ [c_gatsu] @ d @ [c_nichi]) =
               format_date (b + vy - 1) vm vd"
    by (intro replace_dates_era_numbered) blast+
next
  show "normalize_number [0x5143] = Inr 1" by (simp add: normalize_number_def)
  show "normalize [0x5E73, 0x6210, 0x5143, 0x5E74, 0x56DB, 0x6708, 0x4E00, 0x65E5]
       = Inr [0x31, 0x39, 0x38, 0x39, 0x2D, 0x30, 0x34, 0x2D, 0x30, 0x31]"
    by (simp add: run)
  show "normalize [0x4EE4, 0x548C, 0x4E94, 0x5E74, 0x4E09, 0x6708, 0x4E8C, 0x65E5]
       = Inr [0x32, 0x30, 0x32, 0x33, 0x2D, 0x30, 0x33, 0x2D, 0x30, 0x32]"
    by (simp add: run)
qed

theorem C4_witness:
  "ERA_MAP [0x4EE4, 0x548C] = Some 2019
   \<and> list_all kanji_num_chars [0x4E94] \<and> list_all kanji_num_chars [0x4E09]
   \<and> list_all kanji_num_chars [0x4E8C]
   \<and> normalize_number [0x4E94] = Inr 5
   \<and> replace_dates [0x4EE4, 0x548C, 0x4E94, 0x5E74, 0x4E09, 0x6708, 0x4E8C, 0x65E5]
       = Inr [0x32, 0x30, 0x32, 0x33, 0x2D, 0x30, 0x33, 0x2D, 0x30, 0x32]"
proof -
  have e: "ERA_MAP [0x4EE4, 0x548C] = Some 2019" by (simp add: ERA_MAP_def)
  have k: "list_all kanji_num_chars [0x4E94]" "list_all kanji_num_chars [0x4E09]"
    "list_all kanji_num_chars [0x4E8C]"
    by (simp_all add: kanji_num_chars_def)
  have l: "length [0x4E94 :: nat] \<le> int_max_str_digits"
    "length [0x4E09 :: nat] \<le> int_max_str_digits"
    "length [0x4E8C :: nat] \<le> int_max_str_digits"
    by (simp_all add: int_max_str_digits_def)
  have n: "normalize_number [0x4E94] = Inr 5" "normalize_number [0x4E09] = Inr 3"
    "normalize_number [0x4E8C] = Inr 2"
    by (simp_all add: nums dig_tab)
  from C4_era_year_offset e k l
  have "\<exists>vy vm vd. normalize_number [0x4E94] = Inr vy \<and> normalize_number [0x4E09] = Inr vm
          \<and> normalize_number [0x4E8C] = Inr vd
          \<and> replace_dates ([0x4EE4, 0x548C] @ [0x4E94] @ [c_nen] @ [0x4E09] @ [c_gatsu]
                @ [0x4E8C] @ [c_nichi]) =
              format_date (2019 + vy - 1) vm vd"
    by blast
  with n have "replace_dates ([0x4EE4, 0x548C] @ [0x4E94] @ [c_nen] @ [0x4E09] @ [c_gatsu]
                @ [0x4E8C] @ [c_nichi]) =
              format_date (2019 + 5 - 1) 3 2"
    by auto
  then have "replace_dates [0x4EE4, 0x548C, 0x4E94, 0x5E74, 0x4E09, 0x6708, 0x4E8C, 0x65E5]
       = Inr [0x32, 0x30, 0x32, 0x33, 0x2D, 0x30, 0x33, 0x2D, 0x30, 0x32]"
    by (simp add: c_nen_def c_gatsu_def c_nichi_def format_date_def fmt_0d_def num_digits_def
          zero_pad_def zfill_def int_max_str_digits_def str_nat.simps)
  with e k n show ?thesis by simp
qed

end
